theory Spec2Isabelle
  imports Main
begin

section \<open>Text and characters\<close>

text \<open>
  Document text, identifiers and URIs are JavaScript strings. They are modelled as
  \<open>string\<close>, read as a sequence of code units below 256. Line numbers, columns and
  offsets are JavaScript numbers and are modelled as \<open>int\<close>.
\<close>

text \<open>The regular-expression class \<open>\s\<close> on code units below 256:
  TAB, LF, VT, FF, CR, SPACE and NO-BREAK SPACE.\<close>

definition isSpace :: "char \<Rightarrow> bool" where
  "isSpace c \<longleftrightarrow> c \<in> set [CHR 0x09, CHR 0x0A, CHR 0x0B, CHR 0x0C, CHR 0x0D, CHR 0x20, CHR 0xA0]"

text \<open>The class \<open>\w\<close>, which decides the word boundary \<open>\b\<close>: \<open>[A-Za-z0-9_]\<close>.\<close>

definition isWord :: "char \<Rightarrow> bool" where
  "isWord c \<longleftrightarrow>
     (let n = (of_char c :: nat) in
        (65 \<le> n \<and> n \<le> 90) \<or> (97 \<le> n \<and> n \<le> 122) \<or> (48 \<le> n \<and> n \<le> 57) \<or> c = CHR ''_'')"

text \<open>The identifier class \<open>[A-Za-z0-9_$]\<close> of the three declaration patterns.\<close>

definition isIdent :: "char \<Rightarrow> bool" where
  "isIdent c \<longleftrightarrow> isWord c \<or> c = CHR ''$''"

fun startsWith :: "string \<Rightarrow> string \<Rightarrow> bool" where
  "startsWith s [] = True"
| "startsWith [] (p # ps) = False"
| "startsWith (x # xs) (p # ps) = (x = p \<and> startsWith xs ps)"

text \<open>\<open>String(n)\<close> and \<open>${n}\<close> for a non-negative integer: its decimal digits.\<close>

definition digitChar :: "nat \<Rightarrow> char" where
  "digitChar d = char_of (48 + d)"

fun showNat :: "nat \<Rightarrow> string" where
  "showNat n = (if n < 10 then [digitChar n] else showNat (n div 10) @ [digitChar (n mod 10)])"

definition showInt :: "int \<Rightarrow> string" where
  "showInt i = (if i < 0 then CHR ''-'' # showNat (nat (- i)) else showNat (nat i))"

text \<open>\<open>line.indexOf(name)\<close>: the index of the first occurrence, or \<open>-1\<close>.\<close>

fun indexOfFrom :: "int \<Rightarrow> string \<Rightarrow> string \<Rightarrow> int" where
  "indexOfFrom i [] name = (if name = [] then i else - 1)"
| "indexOfFrom i (x # xs) name =
     (if startsWith (x # xs) name then i else indexOfFrom (i + 1) xs name)"

definition indexOf :: "string \<Rightarrow> string \<Rightarrow> int" where
  "indexOf line name = indexOfFrom 0 line name"

text \<open>\<open>text.split(/\r\n|\r|\n/)\<close>: the separators are removed, a \<open>\r\n\<close> pair counts
  once, and the result always has at least one (possibly empty) line.\<close>

fun splitLinesAcc :: "string \<Rightarrow> string \<Rightarrow> string list" where
  "splitLinesAcc cur [] = [rev cur]"
| "splitLinesAcc cur (c # cs) =
     (if c = CHR 0x0D then
        (case cs of
           d # ds \<Rightarrow> if d = CHR 0x0A then rev cur # splitLinesAcc [] ds
                     else rev cur # splitLinesAcc [] cs
         | [] \<Rightarrow> rev cur # splitLinesAcc [] cs)
      else if c = CHR 0x0A then rev cur # splitLinesAcc [] cs
      else splitLinesAcc (c # cur) cs)"

definition splitLines :: "string \<Rightarrow> string list" where
  "splitLines txt = splitLinesAcc [] txt"


section \<open>A backtracking matcher for the declaration patterns\<close>

text \<open>
  The three declaration patterns of \<open>buildSnapshot\<close> use literals, greedy repetition of a
  character class, optional groups, alternation and capture groups. \<open>rxMatch\<close> returns
  every way the pattern can match a prefix of the input, in the order a backtracking
  engine tries them (greedy first); \<open>rxExec\<close> takes the first, as \<open>RegExp.exec\<close> does for
  a pattern anchored with \<open>^\<close>.
\<close>

datatype rx =
    Lit string
  | Star "char \<Rightarrow> bool"
  | Plus "char \<Rightarrow> bool"
  | Opt rx
  | Seq rx rx
  | Alt rx rx
  | Cap nat rx

type_synonym captures = "(nat \<times> string) list"

text \<open>The remainders left by a greedy \<open>c*\<close>: longest repetition first.\<close>

fun greedy :: "(char \<Rightarrow> bool) \<Rightarrow> string \<Rightarrow> string list" where
  "greedy p [] = [[]]"
| "greedy p (x # xs) = (if p x then greedy p xs @ [x # xs] else [x # xs])"

fun rxMatch :: "rx \<Rightarrow> captures \<times> string \<Rightarrow> (captures \<times> string) list" where
  "rxMatch (Lit l) (caps, s) = (if startsWith s l then [(caps, drop (length l) s)] else [])"
| "rxMatch (Star p) (caps, s) = map (\<lambda>r. (caps, r)) (greedy p s)"
| "rxMatch (Plus p) (caps, s) =
     (case s of [] \<Rightarrow> [] | x # xs \<Rightarrow> if p x then map (\<lambda>r. (caps, r)) (greedy p xs) else [])"
| "rxMatch (Opt r) (caps, s) = rxMatch r (caps, s) @ [(caps, s)]"
| "rxMatch (Seq a b) (caps, s) = concat (map (rxMatch b) (rxMatch a (caps, s)))"
| "rxMatch (Alt a b) (caps, s) = rxMatch a (caps, s) @ rxMatch b (caps, s)"
| "rxMatch (Cap n r) (caps, s) =
     map (\<lambda>(caps', s'). ((n, take (length s - length s') s) # caps', s')) (rxMatch r (caps, s))"

definition rxExec :: "rx \<Rightarrow> string \<Rightarrow> captures option" where
  "rxExec r line = (case rxMatch r ([], line) of [] \<Rightarrow> None | (caps, rest) # others \<Rightarrow> Some caps)"

definition rxGroup :: "captures option \<Rightarrow> nat \<Rightarrow> string option" where
  "rxGroup m n = (case m of None \<Rightarrow> None | Some caps \<Rightarrow> map_of caps n)"

fun seqs :: "rx list \<Rightarrow> rx" where
  "seqs [] = Lit []"
| "seqs [r] = r"
| "seqs (r # rs) = Seq r (seqs rs)"

text \<open>\<open>/^\s*(export\s+)?(abstract\s+)?class\s+([A-Za-z0-9_$]+)/\<close>\<close>

definition classRx :: rx where
  "classRx = seqs [Star isSpace,
                   Opt (Cap 1 (Seq (Lit ''export'') (Plus isSpace))),
                   Opt (Cap 2 (Seq (Lit ''abstract'') (Plus isSpace))),
                   Lit ''class'', Plus isSpace,
                   Cap 3 (Plus isIdent)]"

text \<open>\<open>/^\s*(export\s+)?(async\s+)?function\s+([A-Za-z0-9_$]+)/\<close>\<close>

definition functionRx :: rx where
  "functionRx = seqs [Star isSpace,
                      Opt (Cap 1 (Seq (Lit ''export'') (Plus isSpace))),
                      Opt (Cap 2 (Seq (Lit ''async'') (Plus isSpace))),
                      Lit ''function'', Plus isSpace,
                      Cap 3 (Plus isIdent)]"

text \<open>\<open>/^\s*(public\s+|private\s+|protected\s+)?(static\s+)?(async\s+)?([A-Za-z0-9_$]+)\s*\(/\<close>\<close>

definition methodRx :: rx where
  "methodRx = seqs [Star isSpace,
                    Opt (Cap 1 (Alt (Seq (Lit ''public'') (Plus isSpace))
                               (Alt (Seq (Lit ''private'') (Plus isSpace))
                                    (Seq (Lit ''protected'') (Plus isSpace))))),
                    Opt (Cap 2 (Seq (Lit ''static'') (Plus isSpace))),
                    Opt (Cap 3 (Seq (Lit ''async'') (Plus isSpace))),
                    Cap 4 (Plus isIdent),
                    Star isSpace, Lit ''('']"

text \<open>\<open>/^\s*$/.test(line)\<close>\<close>

definition isBlank :: "string \<Rightarrow> bool" where
  "isBlank line \<longleftrightarrow> list_all isSpace line"


section \<open>Data model\<close>

datatype CodeSymbolKind = File | Class | Method | Function | Property | Variable | Unknown

record IRange =
  startLineNumber :: int
  startColumn :: int
  endLineNumber :: int
  endColumn :: int

record Position =
  lineNumber :: int
  column :: int

text \<open>\<open>SymbolNodeLite\<close>. A URI is kept as its string form. An optional field is an
  \<open>option\<close>; \<open>metrics\<close> holds \<open>loc\<close> (\<open>complexity\<close> and \<open>jsDocSummary\<close> are never set).\<close>

record SymbolNodeLite =
  sym_id :: string
  sym_name :: string
  sym_kind :: CodeSymbolKind
  sym_uri :: string
  sym_range :: IRange
  sym_selectionRange :: IRange
  sym_containerId :: "string option"
  sym_metrics :: "int option"

record FileStructureSnapshot =
  snap_uri :: string
  snap_version :: int
  snap_languageId :: string
  snap_symbols :: "SymbolNodeLite list"
  snap_createdAt :: int

text \<open>
  The text buffer \<open>ITextModel\<close> is an external collaborator. Modelled from the spec: it
  exposes the document's content, language id and version; reading the content or the
  version of a disposed model throws.
\<close>

record ITextModel =
  model_uri :: string
  model_languageId :: string
  model_versionId :: int
  model_value :: string
  model_disposed :: bool

datatype exn = ModelDisposed

definition getVersionId :: "ITextModel \<Rightarrow> exn + int" where
  "getVersionId m = (if model_disposed m then Inl ModelDisposed else Inr (model_versionId m))"

definition getValue :: "ITextModel \<Rightarrow> exn + string" where
  "getValue m = (if model_disposed m then Inl ModelDisposed else Inr (model_value m))"

definition getValueLength :: "ITextModel \<Rightarrow> exn + int" where
  "getValueLength m =
     (if model_disposed m then Inl ModelDisposed else Inr (int (length (model_value m))))"


section \<open>Structure indexer: extraction\<close>

definition mkRange :: "int \<Rightarrow> int \<Rightarrow> int \<Rightarrow> int \<Rightarrow> IRange" where
  "mkRange sl sc el ec =
     \<lparr>startLineNumber = sl, startColumn = sc, endLineNumber = el, endColumn = ec\<rparr>"

definition buildSymbolId :: "string \<Rightarrow> string \<Rightarrow> int \<Rightarrow> string" where
  "buildSymbolId uri name lineNo = uri @ ''::'' @ name @ ''@'' @ showInt lineNo"

text \<open>The range every non-File symbol gets: the span of the first occurrence of the
  name on its declaration line.\<close>

definition nameRange :: "string \<Rightarrow> string \<Rightarrow> int \<Rightarrow> IRange" where
  "nameRange line name lineNo =
     (let nameColumn = indexOf line name + 1
      in mkRange lineNo nameColumn lineNo (nameColumn + int (length name)))"

definition classSymbol :: "string \<Rightarrow> string \<Rightarrow> string \<Rightarrow> int \<Rightarrow> SymbolNodeLite" where
  "classSymbol uri line name lineNo =
     \<lparr>sym_id = buildSymbolId uri name lineNo, sym_name = name, sym_kind = Class,
      sym_uri = uri, sym_range = nameRange line name lineNo,
      sym_selectionRange = nameRange line name lineNo,
      sym_containerId = None, sym_metrics = None\<rparr>"

definition functionSymbol :: "string \<Rightarrow> string \<Rightarrow> string \<Rightarrow> int \<Rightarrow> SymbolNodeLite" where
  "functionSymbol uri line name lineNo =
     \<lparr>sym_id = buildSymbolId uri name lineNo, sym_name = name, sym_kind = Function,
      sym_uri = uri, sym_range = nameRange line name lineNo,
      sym_selectionRange = nameRange line name lineNo,
      sym_containerId = None, sym_metrics = None\<rparr>"

definition methodSymbol :: "string \<Rightarrow> string \<Rightarrow> string \<Rightarrow> int \<Rightarrow> string \<Rightarrow> SymbolNodeLite" where
  "methodSymbol uri line name lineNo currentClassId =
     \<lparr>sym_id = buildSymbolId uri (name @ ''@'' @ currentClassId) lineNo, sym_name = name,
      sym_kind = Method, sym_uri = uri, sym_range = nameRange line name lineNo,
      sym_selectionRange = nameRange line name lineNo,
      sym_containerId = Some currentClassId, sym_metrics = None\<rparr>"

text \<open>A string or \<open>undefined\<close> used as a condition: \<open>undefined\<close> and the empty string
  are falsy.\<close>

definition truthy :: "string option \<Rightarrow> bool" where
  "truthy v = (case v of None \<Rightarrow> False | Some s \<Rightarrow> s \<noteq> [])"

text \<open>The line loop of \<open>buildSnapshot\<close>: \<open>lineNo\<close> is \<open>i + 1\<close>, \<open>cur\<close> is
  \<open>currentClassId\<close>, and the result lists the symbols pushed from this line on.\<close>

fun scanLines :: "string \<Rightarrow> int \<Rightarrow> string option \<Rightarrow> string list \<Rightarrow> SymbolNodeLite list" where
  "scanLines uri lineNo cur [] = []"
| "scanLines uri lineNo cur (line # rest) =
     (case rxGroup (rxExec classRx line) 3 of
        Some name \<Rightarrow>
          classSymbol uri line name lineNo
            # scanLines uri (lineNo + 1) (Some (buildSymbolId uri name lineNo)) rest
      | None \<Rightarrow>
         (case rxGroup (rxExec functionRx line) 3 of
            Some name \<Rightarrow> functionSymbol uri line name lineNo # scanLines uri (lineNo + 1) cur rest
          | None \<Rightarrow>
             (case (rxGroup (rxExec methodRx line) 4, truthy cur) of
                (Some name, True) \<Rightarrow>
                  methodSymbol uri line name lineNo (the cur)
                    # scanLines uri (lineNo + 1) cur rest
              | _ \<Rightarrow> scanLines uri (lineNo + 1) (if isBlank line then None else cur) rest)))"

text \<open>\<open>basename(uri)\<close> is imported from the host. Modelled from the spec: the last
  segment of the path, after the last \<open>/\<close>.\<close>

definition basename :: "string \<Rightarrow> string" where
  "basename uri = rev (takeWhile (\<lambda>c. c \<noteq> CHR ''/'') (rev uri))"

text \<open>\<open>lines[lines.length - 1]?.length + 1 || 1\<close>\<close>

definition lastLineEndColumn :: "string list \<Rightarrow> int" where
  "lastLineEndColumn lns =
     (if lns = [] then 1
      else (let c = int (length (last lns)) + 1 in if c = 0 then 1 else c))"

definition fileSymbol :: "string \<Rightarrow> string list \<Rightarrow> SymbolNodeLite" where
  "fileSymbol uri lns =
     \<lparr>sym_id = buildSymbolId uri ''<file>'' 1, sym_name = basename uri, sym_kind = File,
      sym_uri = uri,
      sym_range = mkRange 1 1 (max 1 (int (length lns))) (lastLineEndColumn lns),
      sym_selectionRange = mkRange 1 1 1 1,
      sym_containerId = None, sym_metrics = Some (int (length lns))\<rparr>"

text \<open>\<open>buildSnapshot\<close>: \<open>now\<close> is the value \<open>Date.now()\<close> returns. The version is read
  before the content, and either read throws on a disposed model.\<close>

definition buildSnapshot :: "int \<Rightarrow> ITextModel \<Rightarrow> exn + FileStructureSnapshot" where
  "buildSnapshot now m =
     (case getVersionId m of
        Inl e \<Rightarrow> Inl e
      | Inr version \<Rightarrow>
         (case getValue m of
            Inl e \<Rightarrow> Inl e
          | Inr txt \<Rightarrow>
             (let lns = splitLines txt;
                  symbols = scanLines (model_uri m) 1 None lns
              in Inr \<lparr>snap_uri = model_uri m, snap_version = version,
                      snap_languageId = model_languageId m,
                      snap_symbols = fileSymbol (model_uri m) lns # symbols,
                      snap_createdAt = now\<rparr>)))"


section \<open>Structure indexer: service state\<close>

datatype log_entry = Debug string string

text \<open>
  \<open>RunOnceScheduler\<close> comes from the host. Modelled from the spec: a cancellable,
  reschedule-on-retrigger timer task. \<open>sch_pending\<close> says that a run is scheduled,
  \<open>sch_disposed\<close> that the scheduler was disposed (its runner is gone). Schedulers are
  objects: the service's map holds references into \<open>schedulerHeap\<close>, and a listener
  registered by \<open>onModelAdded\<close> keeps the reference it captured.
\<close>

record RunOnceScheduler =
  sch_pending :: bool
  sch_disposed :: bool

definition schedule :: "RunOnceScheduler \<Rightarrow> RunOnceScheduler" where
  "schedule s = s\<lparr>sch_pending := True\<rparr>"

definition dispose :: "RunOnceScheduler \<Rightarrow> RunOnceScheduler" where
  "dispose s = s\<lparr>sch_pending := False, sch_disposed := True\<rparr>"

record structure_state =
  snapshots :: "string \<rightharpoonup> FileStructureSnapshot"
  recomputeSchedulers :: "string \<rightharpoonup> nat"
  schedulerHeap :: "nat \<rightharpoonup> RunOnceScheduler"
  nextSchedulerRef :: nat
  snapshotUpdates :: "string list"
  structureLog :: "log_entry list"

definition structure_init :: structure_state where
  "structure_init =
     \<lparr>snapshots = Map.empty, recomputeSchedulers = Map.empty, schedulerHeap = Map.empty,
      nextSchedulerRef = 0, snapshotUpdates = [], structureLog = []\<rparr>"

definition isSupported :: "ITextModel \<Rightarrow> bool" where
  "isSupported m \<longleftrightarrow>
     model_languageId m = ''typescript'' \<or> model_languageId m = ''typescriptreact''
     \<or> model_languageId m = ''javascript'' \<or> model_languageId m = ''javascriptreact''"

definition scheduleRef :: "nat \<Rightarrow> structure_state \<Rightarrow> structure_state" where
  "scheduleRef r st =
     (case schedulerHeap st r of
        None \<Rightarrow> st
      | Some s \<Rightarrow> st\<lparr>schedulerHeap := (schedulerHeap st)(r \<mapsto> schedule s)\<rparr>)"

definition onModelAdded :: "ITextModel \<Rightarrow> structure_state \<Rightarrow> structure_state" where
  "onModelAdded m st =
     (if \<not> isSupported m then st
      else
        (let key = model_uri m in
           (case recomputeSchedulers st key of
              Some r \<Rightarrow> scheduleRef r st
            | None \<Rightarrow>
               (let r = nextSchedulerRef st;
                    st1 = st\<lparr>schedulerHeap :=
                                (schedulerHeap st)(r \<mapsto> \<lparr>sch_pending = False, sch_disposed = False\<rparr>),
                              nextSchedulerRef := r + 1,
                              recomputeSchedulers := (recomputeSchedulers st)(key \<mapsto> r)\<rparr>
                in scheduleRef r st1))))"

text \<open>The content-change listener registered by \<open>onModelAdded\<close>; \<open>r\<close> is the scheduler
  it captured.\<close>

definition onDidChangeContent :: "nat \<Rightarrow> ITextModel \<Rightarrow> structure_state \<Rightarrow> structure_state" where
  "onDidChangeContent r m st = (if \<not> isSupported m then st else scheduleRef r st)"

text \<open>The will-dispose listener registered by \<open>onModelAdded\<close>.\<close>

definition onWillDispose :: "ITextModel \<Rightarrow> structure_state \<Rightarrow> structure_state" where
  "onWillDispose m st =
     (let key = model_uri m
      in st\<lparr>recomputeSchedulers := (recomputeSchedulers st)(key := None),
            snapshots := (snapshots st)(key := None)\<rparr>)"

definition onModelRemoved_structure :: "ITextModel \<Rightarrow> structure_state \<Rightarrow> structure_state" where
  "onModelRemoved_structure m st =
     (let key = model_uri m;
          st1 = (case recomputeSchedulers st key of
                   None \<Rightarrow> st
                 | Some r \<Rightarrow>
                    (case schedulerHeap st r of
                       None \<Rightarrow> st
                     | Some s \<Rightarrow> st\<lparr>schedulerHeap := (schedulerHeap st)(r \<mapsto> dispose s)\<rparr>))
      in st1\<lparr>recomputeSchedulers := (recomputeSchedulers st1)(key := None)\<rparr>)"

definition getSnapshot :: "structure_state \<Rightarrow> string \<Rightarrow> FileStructureSnapshot option" where
  "getSnapshot st uri = snapshots st uri"

definition containsPosition :: "IRange \<Rightarrow> Position \<Rightarrow> bool" where
  "containsPosition rng position =
     (if lineNumber position < startLineNumber rng \<or> lineNumber position > endLineNumber rng
      then False
      else if lineNumber position = startLineNumber rng \<and> column position < startColumn rng
      then False
      else if lineNumber position = endLineNumber rng \<and> column position > endColumn rng
      then False
      else True)"

text \<open>The loop of \<open>getSymbolAtPosition\<close> over \<open>snapshot.symbols\<close>.\<close>

fun symbolAt :: "SymbolNodeLite list \<Rightarrow> Position \<Rightarrow> SymbolNodeLite option" where
  "symbolAt [] position = None"
| "symbolAt (symbol # rest) position =
     (if containsPosition (sym_range symbol) position then Some symbol
      else symbolAt rest position)"

definition getSymbolAtPosition :: "structure_state \<Rightarrow> string \<Rightarrow> Position \<Rightarrow> SymbolNodeLite option" where
  "getSymbolAtPosition st uri position =
     (case getSnapshot st uri of
        None \<Rightarrow> None
      | Some snapshot \<Rightarrow> symbolAt (snap_symbols snapshot) position)"

text \<open>\<open>recomputeSnapshot\<close>: the \<open>try\<close> block stores the snapshot and fires
  \<open>onDidUpdateSnapshot\<close> (recorded in \<open>snapshotUpdates\<close>); the \<open>catch\<close> block only logs.\<close>

definition recomputeSnapshot :: "int \<Rightarrow> ITextModel \<Rightarrow> structure_state \<Rightarrow> structure_state" where
  "recomputeSnapshot now m st =
     (case buildSnapshot now m of
        Inr snapshot \<Rightarrow>
          st\<lparr>snapshots := (snapshots st)(model_uri m \<mapsto> snapshot),
             snapshotUpdates := snapshotUpdates st @ [model_uri m]\<rparr>
      | Inl error \<Rightarrow>
          st\<lparr>structureLog := structureLog st
                 @ [Debug ''[CodeStructureService] Failed to compute snapshot'' (model_uri m)]\<rparr>)"


section \<open>Call-graph builder\<close>

datatype GraphEdgeKind = Call | Import | Export

text \<open>
  A \<open>GraphEdge\<close> is an object: \<open>removeEdges\<close> compares edges with \<open>!==\<close>, by identity.
  \<open>edge_ref\<close> is the identity of the object, taken from the allocation counter
  \<open>nextEdgeRef\<close> of the service state when the object literal is evaluated.
\<close>

record GraphEdge =
  edge_ref :: nat
  edge_from :: string
  edge_to :: string
  edge_kind :: GraphEdgeKind

record FileGraphData =
  fg_uri :: string
  fg_edges :: "GraphEdge list"

text \<open>What the three readers \<open>getEdgesForFile\<close>, \<open>getCallees\<close> and \<open>getCallers\<close> read.\<close>

record graph_view =
  fileGraphs :: "string \<rightharpoonup> FileGraphData"
  outgoingEdges :: "string \<rightharpoonup> GraphEdge list"
  incomingEdges :: "string \<rightharpoonup> GraphEdge list"

text \<open>
  \<open>graphUpdates\<close> records every \<open>onDidUpdateGraphForUri\<close> event together with the data a
  listener, which is called synchronously by \<open>fire\<close>, reads at that moment.
\<close>

record graph_state = graph_view +
  symbolToFile :: "string \<rightharpoonup> string"
  nextEdgeRef :: nat
  graphUpdates :: "(string \<times> graph_view) list"
  graphLog :: "log_entry list"

definition graph_init :: graph_state where
  "graph_init =
     \<lparr>fileGraphs = Map.empty, outgoingEdges = Map.empty, incomingEdges = Map.empty,
      symbolToFile = Map.empty, nextEdgeRef = 0, graphUpdates = [], graphLog = []\<rparr>"

definition MAX_FILE_LENGTH_FOR_SCAN :: int where
  "MAX_FILE_LENGTH_FOR_SCAN = 200000"

text \<open>The three readers, on the service state or on the data recorded with an event.\<close>

definition getCallees :: "'a graph_view_scheme \<Rightarrow> string \<Rightarrow> GraphEdge list" where
  "getCallees g symbolId = (case outgoingEdges g symbolId of None \<Rightarrow> [] | Some es \<Rightarrow> es)"

definition getCallers :: "'a graph_view_scheme \<Rightarrow> string \<Rightarrow> GraphEdge list" where
  "getCallers g symbolId = (case incomingEdges g symbolId of None \<Rightarrow> [] | Some es \<Rightarrow> es)"

definition getEdgesForFile :: "'a graph_view_scheme \<Rightarrow> string \<Rightarrow> GraphEdge list" where
  "getEdgesForFile g uri = (case fileGraphs g uri of None \<Rightarrow> [] | Some fg \<Rightarrow> fg_edges fg)"

text \<open>A JavaScript \<open>Map\<close> iterates in insertion order, and \<open>set\<close> on a present key keeps
  the key's place: an association list with update in place.\<close>

fun mapSet :: "'k \<Rightarrow> 'v \<Rightarrow> ('k \<times> 'v) list \<Rightarrow> ('k \<times> 'v) list" where
  "mapSet k v [] = [(k, v)]"
| "mapSet k v ((k', v') # rest) = (if k' = k then (k, v) # rest else (k', v') # mapSet k v rest)"

definition mapGet :: "('k \<times> 'v) list \<Rightarrow> 'k \<Rightarrow> 'v option" where
  "mapGet m k = map_of m k"

text \<open>The first loop of \<open>computeIntraFileCallEdges\<close>: Function and Method symbols
  grouped by name.\<close>

fun groupByName :: "SymbolNodeLite list \<Rightarrow> (string \<times> SymbolNodeLite list) list
                      \<Rightarrow> (string \<times> SymbolNodeLite list) list" where
  "groupByName [] symbolByName = symbolByName"
| "groupByName (symbol # rest) symbolByName =
     (if sym_kind symbol = Function \<or> sym_kind symbol = Method
      then (let lst = (case mapGet symbolByName (sym_name symbol) of None \<Rightarrow> [] | Some l \<Rightarrow> l)
            in groupByName rest (mapSet (sym_name symbol) (lst @ [symbol]) symbolByName))
      else groupByName rest symbolByName)"

text \<open>
  The pattern \<open>\bNAME\s*\(\<close>, where \<open>escapeRegExpCharacters\<close> (from the host) makes the
  name a literal. Modelled from the spec: an occurrence of the name followed by optional
  whitespace and \<open>(\<close>, anchored at a word boundary. \<open>prev\<close> is the code unit before the
  position tried, \<open>s\<close> the text from that position on; the result is the length of the
  match.
\<close>

definition wordBoundary :: "char option \<Rightarrow> string \<Rightarrow> bool" where
  "wordBoundary prev s \<longleftrightarrow>
     (case prev of None \<Rightarrow> False | Some c \<Rightarrow> isWord c)
       \<noteq> (case s of [] \<Rightarrow> False | c # cs \<Rightarrow> isWord c)"

definition matchCallAt :: "string \<Rightarrow> char option \<Rightarrow> string \<Rightarrow> nat option" where
  "matchCallAt name prev s =
     (if wordBoundary prev s \<and> startsWith s name
      then (case dropWhile isSpace (drop (length name) s) of
              [] \<Rightarrow> None
            | c # r \<Rightarrow> if c = CHR ''('' then Some (length s - length r) else None)
      else None)"

text \<open>
  The \<open>while (true)\<close> loop around \<open>regex.exec(text)\<close> with the \<open>g\<close> flag: the offsets
  \<open>match.index\<close> of the successive matches, left to right. Each search starts at
  \<open>lastIndex\<close>, the end of the previous match: \<open>skip\<close> counts the code units of the
  previous match that are still ahead. \<open>off\<close> is the offset of the position tried.
\<close>

fun execAll :: "string \<Rightarrow> char option \<Rightarrow> int \<Rightarrow> nat \<Rightarrow> string \<Rightarrow> int list" where
  "execAll name prev off skip [] = []"
| "execAll name prev off skip (c # cs) =
     (if skip = 0 then
        (case matchCallAt name prev (c # cs) of
           Some len \<Rightarrow> off # execAll name (Some c) (off + 1) (len - 1) cs
         | None \<Rightarrow> execAll name (Some c) (off + 1) 0 cs)
      else execAll name (Some c) (off + 1) (skip - 1) cs)"

text \<open>
  \<open>model.getPositionAt(offset)\<close> is the host's. Modelled from the spec
  (\<open>positionAt(fileId, offset) -> {line, column}\<close>): 1-based line and column of the offset,
  with the line breaks \<open>buildSnapshot\<close> splits at; the \<open>\r\<close> of a \<open>\r\n\<close> pair does not end
  the line by itself, and an offset past the end gives the end.
\<close>

fun positionFrom :: "int \<Rightarrow> int \<Rightarrow> nat \<Rightarrow> string \<Rightarrow> Position" where
  "positionFrom l c 0 s = \<lparr>lineNumber = l, column = c\<rparr>"
| "positionFrom l c (Suc n) [] = \<lparr>lineNumber = l, column = c\<rparr>"
| "positionFrom l c (Suc n) (x # xs) =
     (if x = CHR 0x0A then positionFrom (l + 1) 1 n xs
      else if x = CHR 0x0D then
        (case xs of
           d # ds \<Rightarrow> if d = CHR 0x0A then positionFrom l (c + 1) n xs
                     else positionFrom (l + 1) 1 n xs
         | [] \<Rightarrow> positionFrom (l + 1) 1 n xs)
      else positionFrom l (c + 1) n xs)"

definition getPositionAt :: "string \<Rightarrow> int \<Rightarrow> Position" where
  "getPositionAt txt offset = positionFrom 1 1 (nat offset) txt"

fun findContainingSymbol :: "SymbolNodeLite list \<Rightarrow> Position \<Rightarrow> SymbolNodeLite option" where
  "findContainingSymbol [] position = None"
| "findContainingSymbol (symbol # rest) position =
     (let rng = sym_range symbol in
        if lineNumber position < startLineNumber rng \<or> lineNumber position > endLineNumber rng
        then findContainingSymbol rest position
        else if lineNumber position = startLineNumber rng \<and> column position < startColumn rng
        then findContainingSymbol rest position
        else if lineNumber position = endLineNumber rng \<and> column position > endColumn rng
        then findContainingSymbol rest position
        else if sym_kind symbol \<noteq> File then Some symbol
        else findContainingSymbol rest position)"

text \<open>The accumulators of \<open>computeIntraFileCallEdges\<close>: the array \<open>edges\<close>, the set
  \<open>seen\<close>, and the allocation counter for the edge objects.\<close>

record edge_scan =
  scan_edges :: "GraphEdge list"
  scan_seen :: "string set"
  scan_next :: nat

definition edgeKey :: "string \<Rightarrow> string \<Rightarrow> string" where
  "edgeKey fromId toId = fromId @ ''->'' @ toId"

text \<open>The loop over \<open>candidates\<close> for one occurrence.\<close>

fun addTargets :: "SymbolNodeLite \<Rightarrow> SymbolNodeLite list \<Rightarrow> edge_scan \<Rightarrow> edge_scan" where
  "addTargets fromSymbol [] acc = acc"
| "addTargets fromSymbol (target # rest) acc =
     (let key = edgeKey (sym_id fromSymbol) (sym_id target) in
        if key \<in> scan_seen acc then addTargets fromSymbol rest acc
        else addTargets fromSymbol rest
               \<lparr>scan_edges = scan_edges acc
                   @ [\<lparr>edge_ref = scan_next acc, edge_from = sym_id fromSymbol,
                        edge_to = sym_id target, edge_kind = Call\<rparr>],
                scan_seen = insert key (scan_seen acc),
                scan_next = scan_next acc + 1\<rparr>)"

text \<open>The occurrences of one name, given by their offsets.\<close>

fun scanMatches :: "SymbolNodeLite list \<Rightarrow> SymbolNodeLite option \<Rightarrow> string
                      \<Rightarrow> SymbolNodeLite list \<Rightarrow> int list \<Rightarrow> edge_scan \<Rightarrow> edge_scan" where
  "scanMatches symbols fileSym txt candidates [] acc = acc"
| "scanMatches symbols fileSym txt candidates (offset # others) acc =
     (let position = getPositionAt txt offset;
          fromSymbol = (case findContainingSymbol symbols position of
                          Some s \<Rightarrow> Some s
                        | None \<Rightarrow> fileSym)
      in (case fromSymbol of
            None \<Rightarrow> scanMatches symbols fileSym txt candidates others acc
          | Some f \<Rightarrow>
              scanMatches symbols fileSym txt candidates others (addTargets f candidates acc)))"

text \<open>The loop over the entries of \<open>symbolByName\<close>.\<close>

fun scanNames :: "SymbolNodeLite list \<Rightarrow> SymbolNodeLite option \<Rightarrow> string
                    \<Rightarrow> (string \<times> SymbolNodeLite list) list \<Rightarrow> edge_scan \<Rightarrow> edge_scan" where
  "scanNames symbols fileSym txt [] acc = acc"
| "scanNames symbols fileSym txt ((name, candidates) # others) acc =
     scanNames symbols fileSym txt others
       (scanMatches symbols fileSym txt candidates (execAll name None 0 0 txt) acc)"

text \<open>\<open>computeIntraFileCallEdges\<close>: \<open>next\<close> is the allocation counter on entry; the
  result is the array of new edges and the counter on exit. \<open>model.getValue()\<close> throws on
  a disposed model.\<close>

definition computeIntraFileCallEdges ::
  "FileStructureSnapshot \<Rightarrow> ITextModel \<Rightarrow> nat \<Rightarrow> exn + (GraphEdge list \<times> nat)" where
  "computeIntraFileCallEdges snapshot m next =
     (case getValue m of
        Inl e \<Rightarrow> Inl e
      | Inr txt \<Rightarrow>
         (let symbols = snap_symbols snapshot;
              fileSym = find (\<lambda>s. sym_kind s = File) symbols;
              symbolByName = groupByName symbols [];
              acc = scanNames symbols fileSym txt symbolByName
                      \<lparr>scan_edges = [], scan_seen = {}, scan_next = next\<rparr>
          in Inr (scan_edges acc, scan_next acc)))"

text \<open>\<open>array.push(edge)\<close> on the array stored under a key, or on a new array.\<close>

definition pushEdge :: "string \<Rightarrow> GraphEdge \<Rightarrow> (string \<rightharpoonup> GraphEdge list) \<Rightarrow> (string \<rightharpoonup> GraphEdge list)" where
  "pushEdge k e m = m(k \<mapsto> (case m k of None \<Rightarrow> [] | Some es \<Rightarrow> es) @ [e])"

fun addEdges :: "GraphEdge list \<Rightarrow> graph_state \<Rightarrow> graph_state" where
  "addEdges [] g = g"
| "addEdges (edge # rest) g =
     addEdges rest
       (g\<lparr>outgoingEdges := pushEdge (edge_from edge) edge (outgoingEdges g),
          incomingEdges := pushEdge (edge_to edge) edge (incomingEdges g)\<rparr>)"

text \<open>\<open>filter(e => e !== edge)\<close> on the array stored under a key, if there is one.\<close>

definition dropEdge :: "string \<Rightarrow> GraphEdge \<Rightarrow> (string \<rightharpoonup> GraphEdge list) \<Rightarrow> (string \<rightharpoonup> GraphEdge list)" where
  "dropEdge k e m =
     (case m k of
        None \<Rightarrow> m
      | Some es \<Rightarrow> m(k \<mapsto> filter (\<lambda>x. edge_ref x \<noteq> edge_ref e) es))"

fun removeEdges :: "GraphEdge list \<Rightarrow> graph_state \<Rightarrow> graph_state" where
  "removeEdges [] g = g"
| "removeEdges (edge # rest) g =
     removeEdges rest
       (g\<lparr>outgoingEdges := dropEdge (edge_from edge) edge (outgoingEdges g),
          incomingEdges := dropEdge (edge_to edge) edge (incomingEdges g)\<rparr>)"

definition fireGraphUpdated :: "string \<Rightarrow> graph_state \<Rightarrow> graph_state" where
  "fireGraphUpdated uri g = g\<lparr>graphUpdates := graphUpdates g @ [(uri, graph_view.truncate g)]\<rparr>"

text \<open>
  \<open>rebuildForUri\<close>. \<open>ss\<close> is the structure service, \<open>models\<close> the host's model service
  (\<open>getModel\<close>). \<open>getValueLength\<close> is read outside the \<open>try\<close> block: an exception there
  leaves the handler (result \<open>Inl\<close>) before anything is changed. Inside the \<open>try\<close> block
  an exception is caught and logged, and the changes made before it stay.
\<close>

definition rebuildForUri ::
  "structure_state \<Rightarrow> (string \<rightharpoonup> ITextModel) \<Rightarrow> string \<Rightarrow> graph_state \<Rightarrow> exn + graph_state" where
  "rebuildForUri ss models uri g =
     (case getSnapshot ss uri of
        None \<Rightarrow> Inr g
      | Some snapshot \<Rightarrow>
         (case models uri of
            None \<Rightarrow> Inr g
          | Some m \<Rightarrow>
             (case getValueLength m of
                Inl e \<Rightarrow> Inl e
              | Inr len \<Rightarrow>
                 if len > MAX_FILE_LENGTH_FOR_SCAN
                 then Inr (g\<lparr>graphLog := graphLog g
                               @ [Debug ''[CodeGraphService] Skipping graph rebuild for large file'' uri]\<rparr>)
                 else
                   (let g1 = (case fileGraphs g uri of
                                Some oldFileGraph \<Rightarrow> removeEdges (fg_edges oldFileGraph) g
                              | None \<Rightarrow> g)
                    in (case computeIntraFileCallEdges snapshot m (nextEdgeRef g1) of
                          Inl e \<Rightarrow>
                            Inr (g1\<lparr>graphLog := graphLog g1
                                      @ [Debug ''[CodeGraphService] Failed to rebuild graph for'' uri]\<rparr>)
                        | Inr (newEdges, next) \<Rightarrow>
                           (let g2 = g1\<lparr>fileGraphs := (fileGraphs g1)
                                           (uri \<mapsto> \<lparr>fg_uri = uri, fg_edges = newEdges\<rparr>),
                                         nextEdgeRef := next\<rparr>;
                                g3 = addEdges newEdges g2;
                                g4 = g3\<lparr>symbolToFile :=
                                          fold (\<lambda>symbol s2f. s2f(sym_id symbol \<mapsto> uri))
                                            (snap_symbols snapshot) (symbolToFile g3)\<rparr>
                            in Inr (fireGraphUpdated uri g4)))))))"


section \<open>History recorder\<close>

datatype HistoryEventKind = SymbolAdded | SymbolRemoved | SymbolChanged

record SnapshotRef =
  ref_uri :: string
  ref_version :: int

record CodeHistoryEvent =
  ev_id :: string
  ev_uri :: string
  ev_symbolId :: "string option"
  ev_kind :: HistoryEventKind
  ev_timestamp :: int
  ev_summary :: string
  ev_snapshot :: SnapshotRef

record PerFileHistory =
  pf_uri :: string
  pf_events :: "CodeHistoryEvent list"
  pf_lastSnapshot :: "FileStructureSnapshot option"

text \<open>
  \<open>nextEventId\<close> is the module variable \<open>NEXT_EVENT_ID\<close>; \<open>recordedEvents\<close> records the
  \<open>onDidRecordEvent\<close> events fired. The clock \<open>Date.now()\<close> is a parameter of the
  handlers: \<open>clock n\<close> is the time read when the event numbered \<open>n\<close> is created.
\<close>

record history_state =
  perFile :: "string \<rightharpoonup> PerFileHistory"
  nextEventId :: nat
  recordedEvents :: "CodeHistoryEvent list"
  historyLog :: "log_entry list"

definition history_init :: history_state where
  "history_init = \<lparr>perFile = Map.empty, nextEventId = 1, recordedEvents = [], historyLog = []\<rparr>"

definition getEventsForFile :: "history_state \<Rightarrow> string \<Rightarrow> CodeHistoryEvent list" where
  "getEventsForFile h uri = (case perFile h uri of None \<Rightarrow> [] | Some pf \<Rightarrow> pf_events pf)"

text \<open>\<open>createEvent\<close> returns the event; the caller's counter advances by one.\<close>

definition createEvent ::
  "(nat \<Rightarrow> int) \<Rightarrow> nat \<Rightarrow> string \<Rightarrow> string option \<Rightarrow> HistoryEventKind \<Rightarrow> string \<Rightarrow> SnapshotRef
     \<Rightarrow> CodeHistoryEvent" where
  "createEvent clock n uri symbolId kind summary snapshot =
     \<lparr>ev_id = showNat n, ev_uri = uri, ev_symbolId = symbolId, ev_kind = kind,
      ev_timestamp = clock n, ev_summary = summary, ev_snapshot = snapshot\<rparr>"

text \<open>\<open>prevById\<close> and \<open>nextById\<close>: id to name, in insertion order.\<close>

fun byId :: "SymbolNodeLite list \<Rightarrow> (string \<times> string) list \<Rightarrow> (string \<times> string) list" where
  "byId [] m = m"
| "byId (symbol # rest) m = byId rest (mapSet (sym_id symbol) (sym_name symbol) m)"

text \<open>The separator of the rename summary, as the bytes of the source file.\<close>

definition renameArrow :: string where
  "renameArrow = [CHR 0xC3, CHR 0xA2, CHR 0xE2, CHR 0x80, CHR 0xA0, CHR 0xE2, CHR 0x80, CHR 0x99]"

text \<open>The loop over \<open>prevById\<close>: \<open>n\<close> is the event counter, threaded through.\<close>

fun removedEvents ::
  "(nat \<Rightarrow> int) \<Rightarrow> string \<Rightarrow> SnapshotRef \<Rightarrow> (string \<times> string) list \<Rightarrow> (string \<times> string) list
     \<Rightarrow> nat \<Rightarrow> CodeHistoryEvent list \<times> nat" where
  "removedEvents clock uri snapshotRef nextById [] n = ([], n)"
| "removedEvents clock uri snapshotRef nextById ((id0, prevName) # rest) n =
     (if mapGet nextById id0 = None
      then (let (evs, n') = removedEvents clock uri snapshotRef nextById rest (n + 1)
            in (createEvent clock n uri (Some id0) SymbolRemoved
                  (''Removed symbol '' @ prevName) snapshotRef # evs, n'))
      else removedEvents clock uri snapshotRef nextById rest n)"

text \<open>The loop over \<open>nextById\<close>.\<close>

fun addedChangedEvents ::
  "(nat \<Rightarrow> int) \<Rightarrow> string \<Rightarrow> SnapshotRef \<Rightarrow> (string \<times> string) list \<Rightarrow> (string \<times> string) list
     \<Rightarrow> nat \<Rightarrow> CodeHistoryEvent list \<times> nat" where
  "addedChangedEvents clock uri snapshotRef prevById [] n = ([], n)"
| "addedChangedEvents clock uri snapshotRef prevById ((id0, nextName) # rest) n =
     (case mapGet prevById id0 of
        None \<Rightarrow>
          (let (evs, n') = addedChangedEvents clock uri snapshotRef prevById rest (n + 1)
           in (createEvent clock n uri (Some id0) SymbolAdded
                 (''Added symbol '' @ nextName) snapshotRef # evs, n'))
      | Some prevName \<Rightarrow>
          if prevName \<noteq> nextName
          then (let (evs, n') = addedChangedEvents clock uri snapshotRef prevById rest (n + 1)
                in (createEvent clock n uri (Some id0) SymbolChanged
                      (''Renamed symbol '' @ prevName @ '' '' @ renameArrow @ '' '' @ nextName)
                      snapshotRef # evs, n'))
          else addedChangedEvents clock uri snapshotRef prevById rest n)"

definition computeDiffEvents ::
  "(nat \<Rightarrow> int) \<Rightarrow> FileStructureSnapshot \<Rightarrow> FileStructureSnapshot \<Rightarrow> nat
     \<Rightarrow> CodeHistoryEvent list \<times> nat" where
  "computeDiffEvents clock previous next n =
     (let prevById = byId (snap_symbols previous) [];
          nextById = byId (snap_symbols next) [];
          snapshotRef = \<lparr>ref_uri = snap_uri next, ref_version = snap_version next\<rparr>;
          (removed, n1) = removedEvents clock (snap_uri next) snapshotRef nextById prevById n;
          (added, n2) = addedChangedEvents clock (snap_uri next) snapshotRef prevById nextById n1
      in (removed @ added, n2))"

text \<open>\<open>onSnapshotUpdated\<close>: nothing in the \<open>try\<close> block reads the model, so no exception
  arises there.\<close>

definition onSnapshotUpdated ::
  "(nat \<Rightarrow> int) \<Rightarrow> structure_state \<Rightarrow> (string \<rightharpoonup> ITextModel) \<Rightarrow> string \<Rightarrow> history_state
     \<Rightarrow> history_state" where
  "onSnapshotUpdated clock ss models uri h =
     (case models uri of
        None \<Rightarrow> h
      | Some m \<Rightarrow>
         (case getSnapshot ss uri of
            None \<Rightarrow> h
          | Some snapshot \<Rightarrow>
             (let history = (case perFile h uri of
                               None \<Rightarrow> \<lparr>pf_uri = uri, pf_events = [], pf_lastSnapshot = None\<rparr>
                             | Some pf \<Rightarrow> pf);
                  previousSnapshot = pf_lastSnapshot history;
                  history1 = history\<lparr>pf_lastSnapshot := Some snapshot\<rparr>
              in (case previousSnapshot of
                    None \<Rightarrow> h\<lparr>perFile := (perFile h)(uri \<mapsto> history1)\<rparr>
                  | Some previous \<Rightarrow>
                     (let (events, n') = computeDiffEvents clock previous snapshot (nextEventId h)
                      in h\<lparr>perFile := (perFile h)
                                (uri \<mapsto> history1\<lparr>pf_events := pf_events history1 @ events\<rparr>),
                            nextEventId := n',
                            recordedEvents := recordedEvents h @ events\<rparr>)))))"

definition onModelRemoved_history :: "ITextModel \<Rightarrow> history_state \<Rightarrow> history_state" where
  "onModelRemoved_history m h =
     (let key = model_uri m in
        (case perFile h key of
           None \<Rightarrow> h
         | Some existing \<Rightarrow> h\<lparr>perFile := (perFile h)(key \<mapsto> existing\<lparr>pf_lastSnapshot := None\<rparr>)\<rparr>))"


section \<open>The three services together\<close>

text \<open>
  The constructors subscribe the call-graph builder (\<open>rebuildForUri\<close>) and the history
  recorder (\<open>onSnapshotUpdated\<close>) to the indexer's \<open>onDidUpdateSnapshot\<close>, and the indexer
  and the history recorder to the model service's \<open>onModelRemoved\<close>. The call-graph
  builder subscribes to nothing else. \<open>sv_documents\<close> is the model service.
\<close>

record services =
  sv_structure :: structure_state
  sv_graph :: graph_state
  sv_history :: history_state
  sv_documents :: "string \<rightharpoonup> ITextModel"

definition services_init :: services where
  "services_init =
     \<lparr>sv_structure = structure_init, sv_graph = graph_init, sv_history = history_init,
      sv_documents = Map.empty\<rparr>"

text \<open>Delivery of one \<open>onDidUpdateSnapshot\<close> event to its two subscribers. An exception that
  leaves a listener is reported by the emitter and changes nothing.\<close>

definition deliverSnapshotUpdated :: "(nat \<Rightarrow> int) \<Rightarrow> string \<Rightarrow> services \<Rightarrow> services" where
  "deliverSnapshotUpdated clock uri sv =
     sv\<lparr>sv_graph := (case rebuildForUri (sv_structure sv) (sv_documents sv) uri (sv_graph sv) of
                    Inl e \<Rightarrow> sv_graph sv
                  | Inr g \<Rightarrow> g),
        sv_history := onSnapshotUpdated clock (sv_structure sv) (sv_documents sv) uri (sv_history sv)\<rparr>"

text \<open>The scheduler's run for a model: \<open>recomputeSnapshot\<close>, and the delivery of the
  events it fired.\<close>

definition runRecompute :: "int \<Rightarrow> (nat \<Rightarrow> int) \<Rightarrow> ITextModel \<Rightarrow> services \<Rightarrow> services" where
  "runRecompute now clock m sv =
     (let st = recomputeSnapshot now m (sv_structure sv);
          fired = drop (length (snapshotUpdates (sv_structure sv))) (snapshotUpdates st)
      in fold (deliverSnapshotUpdated clock) fired (sv\<lparr>sv_structure := st\<rparr>))"

text \<open>The timer of scheduler \<open>r\<close>, created by \<open>onModelAdded\<close> for the model \<open>m\<close>, elapses:
  the pending run is consumed, and the runner is called unless the scheduler was
  disposed.\<close>

definition timerFired :: "nat \<Rightarrow> int \<Rightarrow> (nat \<Rightarrow> int) \<Rightarrow> ITextModel \<Rightarrow> services \<Rightarrow> services" where
  "timerFired r now clock m sv =
     (case schedulerHeap (sv_structure sv) r of
        None \<Rightarrow> sv
      | Some s \<Rightarrow>
          if \<not> sch_pending s then sv
          else
            (let sv1 = sv\<lparr>sv_structure := (sv_structure sv)
                           \<lparr>schedulerHeap := (schedulerHeap (sv_structure sv))
                                               (r \<mapsto> s\<lparr>sch_pending := False\<rparr>)\<rparr>\<rparr>
             in if sch_disposed s then sv1 else runRecompute now clock m sv1))"

text \<open>A document is added to the model service.\<close>

definition documentAdded :: "ITextModel \<Rightarrow> services \<Rightarrow> services" where
  "documentAdded m sv =
     sv\<lparr>sv_documents := (sv_documents sv)(model_uri m \<mapsto> m),
        sv_structure := onModelAdded m (sv_structure sv)\<rparr>"

text \<open>A tracked document, one for which \<open>onModelAdded\<close> registered the will-dispose
  listener, is removed: the model service drops it and fires \<open>onModelRemoved\<close>, and the
  model's will-dispose listener runs.\<close>

definition documentRemoved :: "ITextModel \<Rightarrow> services \<Rightarrow> services" where
  "documentRemoved m sv =
     sv\<lparr>sv_documents := (sv_documents sv)(model_uri m := None),
        sv_structure := onWillDispose m (onModelRemoved_structure m (sv_structure sv)),
        sv_history := onModelRemoved_history m (sv_history sv)\<rparr>"


section \<open>Notions of the specification\<close>

text \<open>Inclusive containment of a position in a range, as the specification words it:
  the line lies between the first and the last line of the range; on the first line the
  column is at or after the start column, on the last line at or before the end column.\<close>

definition withinRange :: "IRange \<Rightarrow> Position \<Rightarrow> bool" where
  "withinRange rng p \<longleftrightarrow>
     startLineNumber rng \<le> lineNumber p \<and> lineNumber p \<le> endLineNumber rng
     \<and> (lineNumber p = startLineNumber rng \<longrightarrow> startColumn rng \<le> column p)
     \<and> (lineNumber p = endLineNumber rng \<longrightarrow> column p \<le> endColumn rng)"

text \<open>The first symbol, in snapshot order, whose range contains the position.\<close>

definition firstSymbolWithin :: "FileStructureSnapshot option \<Rightarrow> Position \<Rightarrow> SymbolNodeLite option" where
  "firstSymbolWithin snapshot p =
     (case snapshot of
        None \<Rightarrow> None
      | Some snap \<Rightarrow> find (\<lambda>s. withinRange (sym_range s) p) (snap_symbols snap))"

text \<open>A range is contained within another when its start and its end position are.\<close>

definition containsRange :: "IRange \<Rightarrow> IRange \<Rightarrow> bool" where
  "containsRange outer inner \<longleftrightarrow>
     containsPosition outer \<lparr>lineNumber = startLineNumber inner, column = startColumn inner\<rparr>
     \<and> containsPosition outer \<lparr>lineNumber = endLineNumber inner, column = endColumn inner\<rparr>"

text \<open>A position of the document: an existing line, and a column from 1 to one past the
  end of that line.\<close>

definition inDocument :: "string \<Rightarrow> Position \<Rightarrow> bool" where
  "inDocument txt p \<longleftrightarrow>
     (let lns = splitLines txt in
        1 \<le> lineNumber p \<and> lineNumber p \<le> int (length lns)
        \<and> 1 \<le> column p
        \<and> column p \<le> int (length (lns ! nat (lineNumber p - 1))) + 1)"

text \<open>The id-to-name map of a snapshot, and the number of events of one kind for one
  symbol id.\<close>

definition idToName :: "FileStructureSnapshot \<Rightarrow> string \<rightharpoonup> string" where
  "idToName snap = fold (\<lambda>s m. m(sym_id s \<mapsto> sym_name s)) (snap_symbols snap) Map.empty"

definition countEvents :: "HistoryEventKind \<Rightarrow> string \<Rightarrow> CodeHistoryEvent list \<Rightarrow> nat" where
  "countEvents kind symbolId evs =
     length (filter (\<lambda>e. ev_kind e = kind \<and> ev_symbolId e = Some symbolId) evs)"


text \<open>The dedup key of a symbol's self-edge is the key of no other pair of symbol ids
  of the snapshot.\<close>

definition selfKeyUnique :: "SymbolNodeLite list \<Rightarrow> SymbolNodeLite \<Rightarrow> bool" where
  "selfKeyUnique symbols s \<longleftrightarrow>
     (\<forall>f \<in> set symbols. \<forall>c \<in> set symbols.
        edgeKey (sym_id f) (sym_id c) = edgeKey (sym_id s) (sym_id s)
        \<longrightarrow> sym_id f = sym_id s \<and> sym_id c = sym_id s)"


text \<open>
  The readers agree: \<open>getCallees\<close> of a symbol id returns exactly the edges with that
  \<open>from\<close> of the edge sets \<open>getEdgesForFile\<close> returns, the edge sets last stored for the
  files, and \<open>getCallers\<close> those with that \<open>to\<close>; no edge is returned twice.
\<close>

definition viewConsistent :: "'a graph_view_scheme \<Rightarrow> bool" where
  "viewConsistent v \<longleftrightarrow>
     (\<forall>k e. e \<in> set (getCallees v k)
              \<longleftrightarrow> edge_from e = k \<and> (\<exists>u. e \<in> set (getEdgesForFile v u)))
     \<and> (\<forall>k e. e \<in> set (getCallers v k)
              \<longleftrightarrow> edge_to e = k \<and> (\<exists>u. e \<in> set (getEdgesForFile v u)))
     \<and> (\<forall>k. distinct (getCallees v k) \<and> distinct (getCallers v k))"

text \<open>The states of the call-graph builder: the initial one, and those its only handler
  \<open>rebuildForUri\<close> produces, whatever the snapshot and the model it is given.\<close>

inductive reachableGraph :: "graph_state \<Rightarrow> bool" where
  init: "reachableGraph graph_init"
| rebuild: "reachableGraph g \<Longrightarrow> rebuildForUri ss models uri g = Inr g' \<Longrightarrow> reachableGraph g'"


section \<open>Auxiliary notions of the proofs\<close>

text \<open>The array stored under a key of an edge index, or the empty one.\<close>

definition lookupEdges :: "(string \<rightharpoonup> GraphEdge list) \<Rightarrow> string \<Rightarrow> GraphEdge list" where
  "lookupEdges m k = (case m k of None \<Rightarrow> [] | Some es \<Rightarrow> es)"

text \<open>The edge objects made by one pass are new: their references start at the counter
  on entry, stay below the counter, and differ from each other.\<close>

definition scanRefs :: "nat \<Rightarrow> edge_scan \<Rightarrow> bool" where
  "scanRefs n0 acc \<longleftrightarrow>
     n0 \<le> scan_next acc
     \<and> (\<forall>e \<in> set (scan_edges acc). n0 \<le> edge_ref e \<and> edge_ref e < scan_next acc)
     \<and> distinct (map edge_ref (scan_edges acc))"

text \<open>The state a completed pass of \<open>rebuildForUri\<close> leaves: the statements of its \<open>try\<close>
  block, in their order, for the edges \<open>newEdges\<close> and the counter \<open>next\<close> that
  \<open>computeIntraFileCallEdges\<close> returned.\<close>

definition completedRebuild ::
  "string \<Rightarrow> FileStructureSnapshot \<Rightarrow> GraphEdge list \<Rightarrow> nat \<Rightarrow> graph_state \<Rightarrow> graph_state" where
  "completedRebuild uri snapshot newEdges next g =
     (let g1 = removeEdges (getEdgesForFile g uri) g;
          g2 = g1\<lparr>fileGraphs := (fileGraphs g1)(uri \<mapsto> \<lparr>fg_uri = uri, fg_edges = newEdges\<rparr>),
                  nextEdgeRef := next\<rparr>;
          g3 = addEdges newEdges g2;
          g4 = g3\<lparr>symbolToFile :=
                    fold (\<lambda>symbol s2f. s2f(sym_id symbol \<mapsto> uri))
                      (snap_symbols snapshot) (symbolToFile g3)\<rparr>
      in fireGraphUpdated uri g4)"

text \<open>The invariant of the service state: the readers agree, every stored edge object
  was allocated (its reference is below the counter), the references of a file's edges
  differ, and no reference occurs in the edge sets of two files.\<close>

definition graphInv :: "graph_state \<Rightarrow> bool" where
  "graphInv g \<longleftrightarrow>
     viewConsistent g
     \<and> (\<forall>u. \<forall>e \<in> set (getEdgesForFile g u). edge_ref e < nextEdgeRef g)
     \<and> (\<forall>u. distinct (map edge_ref (getEdgesForFile g u)))
     \<and> (\<forall>u u'. u \<noteq> u' \<longrightarrow>
           edge_ref ` set (getEdgesForFile g u) \<inter> edge_ref ` set (getEdgesForFile g u') = {})
     \<and> (\<forall>(u, v) \<in> set (graphUpdates g). viewConsistent v)"



text \<open>The invariant of the accumulators of \<open>computeIntraFileCallEdges\<close>: \<open>seen\<close> holds the
  keys of the edges pushed so far, which are Call edges between ids of the snapshot.\<close>

definition scanInv :: "string set \<Rightarrow> edge_scan \<Rightarrow> bool" where
  "scanInv ids acc \<longleftrightarrow>
     scan_seen acc = (\<lambda>e. edgeKey (edge_from e) (edge_to e)) ` set (scan_edges acc)
     \<and> (\<forall>e \<in> set (scan_edges acc). edge_kind e = Call \<and> edge_from e \<in> ids \<and> edge_to e \<in> ids)"

text \<open>\<open>findContainingSymbol(symbols, position) ?? fileSymbol\<close> for the occurrence at an
  offset.\<close>

definition resolveFrom ::
  "SymbolNodeLite list \<Rightarrow> SymbolNodeLite option \<Rightarrow> string \<Rightarrow> int \<Rightarrow> SymbolNodeLite option" where
  "resolveFrom symbols fileSym t off =
     (case findContainingSymbol symbols (getPositionAt t off) of Some s \<Rightarrow> Some s | None \<Rightarrow> fileSym)"

text \<open>A symbol is among the candidates stored under its name.\<close>

definition grouped :: "(string \<times> SymbolNodeLite list) list \<Rightarrow> SymbolNodeLite \<Rightarrow> bool" where
  "grouped m s \<longleftrightarrow> (\<exists>c. map_of m (sym_name s) = Some c \<and> s \<in> set c)"


section \<open>Example documents\<close>

definition liveModel :: "string \<Rightarrow> string \<Rightarrow> ITextModel" where
  "liveModel uri txt =
     \<lparr>model_uri = uri, model_languageId = ''typescript'', model_versionId = 1,
      model_value = txt, model_disposed = False\<rparr>"

text \<open>\<open>"function a(){ b(); }\nfunction b(){}"\<close>\<close>

definition twoFunctions :: ITextModel where
  "twoFunctions =
     liveModel ''file:///t.ts'' (''function a(){ b(); }'' @ [CHR 0x0A] @ ''function b(){}'')"

text \<open>\<open>"class Foo {\n  bar() {}\n}"\<close>\<close>

definition classFoo :: ITextModel where
  "classFoo =
     liveModel ''file:///foo.ts'' (''class Foo {'' @ [CHR 0x0A] @ ''  bar() {}'' @ [CHR 0x0A] @ ''}'')"

text \<open>A generic function: the declared name is followed by \<open><\<close>, not by \<open>(\<close>.\<close>

definition genericFunction :: ITextModel where
  "genericFunction = liveModel ''file:///g.ts'' ''function id<T>(x: T) { return x; }''"

text \<open>A document of 200001 code units, one more than the size ceiling.\<close>

definition bigDocument :: ITextModel where
  "bigDocument = liveModel ''file:///big.ts'' (replicate 200001 CHR ''x'')"

text \<open>The services after a document was added and its first scheduled run (the first
  scheduler has reference 0).\<close>

definition opened :: "ITextModel \<Rightarrow> services" where
  "opened m = timerFired 0 0 (\<lambda>n. 0) m (documentAdded m services_init)"


text \<open>The content of a tracked document changed: the model service holds the changed
  model, and the content-change listener runs with the scheduler it captured, which is
  the one of the map as long as the document was not removed in between.\<close>

definition documentChanged :: "ITextModel \<Rightarrow> services \<Rightarrow> services" where
  "documentChanged m sv =
     sv\<lparr>sv_documents := (sv_documents sv)(model_uri m \<mapsto> m),
        sv_structure :=
          (case recomputeSchedulers (sv_structure sv) (model_uri m) of
             None \<Rightarrow> sv_structure sv
           | Some r \<Rightarrow> onDidChangeContent r m (sv_structure sv))\<rparr>"

text \<open>\<open>twoFunctions\<close> after \<open>b\<close> on the second line was renamed to \<open>c\<close>, and the services
  after this edit and the scheduled run.\<close>

definition renamedFunction :: ITextModel where
  "renamedFunction =
     (liveModel ''file:///t.ts'' (''function a(){ b(); }'' @ [CHR 0x0A] @ ''function c(){}''))
       \<lparr>model_versionId := 2\<rparr>"

definition edited :: services where
  "edited = timerFired 0 1 (\<lambda>n. 1) renamedFunction
              (documentChanged renamedFunction (opened twoFunctions))"


text \<open>The services after the edit, while the run it scheduled is still pending.\<close>

definition pendingEdit :: services where
  "pendingEdit = documentChanged renamedFunction (opened twoFunctions)"


text \<open>The call-graph builder after its pass over the first snapshot of \<open>twoFunctions\<close>,
  and after its pass over the snapshot of the edited document.\<close>

definition rebuiltOnce :: graph_state where
  "rebuiltOnce =
     (case rebuildForUri (recomputeSnapshot 0 twoFunctions structure_init)
             [''file:///t.ts'' \<mapsto> twoFunctions] ''file:///t.ts'' graph_init of
        Inr g \<Rightarrow> g
      | Inl e \<Rightarrow> graph_init)"

definition rebuiltTwice :: graph_state where
  "rebuiltTwice =
     (case rebuildForUri (recomputeSnapshot 1 renamedFunction structure_init)
             [''file:///t.ts'' \<mapsto> renamedFunction] ''file:///t.ts'' rebuiltOnce of
        Inr g \<Rightarrow> g
      | Inl e \<Rightarrow> rebuiltOnce)"


section \<open>Facts about extraction\<close>

lemma splitLinesAcc_nonempty: "splitLinesAcc cur t \<noteq> []"
  by (induction cur t rule: splitLinesAcc.induct) (auto split: list.splits)

lemma splitLines_nonempty: "splitLines t \<noteq> []"
  by (simp add: splitLines_def splitLinesAcc_nonempty)

lemma buildSnapshot_live:
  "\<not> model_disposed m \<Longrightarrow>
   buildSnapshot now m =
     Inr \<lparr>snap_uri = model_uri m, snap_version = model_versionId m,
          snap_languageId = model_languageId m,
          snap_symbols = fileSymbol (model_uri m) (splitLines (model_value m))
                           # scanLines (model_uri m) 1 None (splitLines (model_value m)),
          snap_createdAt = now\<rparr>"
  by (simp add: buildSnapshot_def getVersionId_def getValue_def Let_def)

lemma buildSnapshot_disposed: "model_disposed m \<Longrightarrow> buildSnapshot now m = Inl ModelDisposed"
  by (simp add: buildSnapshot_def getVersionId_def)

lemma buildSnapshot_Inr_iff: "(\<exists>snap. buildSnapshot now m = Inr snap) \<longleftrightarrow> \<not> model_disposed m"
  by (cases "model_disposed m") (simp_all add: buildSnapshot_live buildSnapshot_disposed)

lemma recomputeSnapshot_live:
  "\<not> model_disposed m \<Longrightarrow>
   recomputeSnapshot now m st =
     st\<lparr>snapshots := (snapshots st)(model_uri m \<mapsto>
           \<lparr>snap_uri = model_uri m, snap_version = model_versionId m,
            snap_languageId = model_languageId m,
            snap_symbols = fileSymbol (model_uri m) (splitLines (model_value m))
                           # scanLines (model_uri m) 1 None (splitLines (model_value m)),
            snap_createdAt = now\<rparr>),
        snapshotUpdates := snapshotUpdates st @ [model_uri m]\<rparr>"
  by (simp add: recomputeSnapshot_def buildSnapshot_live)


section \<open>Symbol lookup by position\<close>

lemma containsPosition_withinRange: "containsPosition rng p = withinRange rng p"
  by (auto simp: containsPosition_def withinRange_def)

lemma symbolAt_find: "symbolAt symbols p = find (\<lambda>s. withinRange (sym_range s) p) symbols"
  by (induction symbols) (simp_all add: containsPosition_withinRange)

text \<open>
  C7. \<open>getSymbolAtPosition\<close> returns the first symbol, in snapshot order, whose range
  contains the position, with containment inclusive in lines and columns; it returns
  nothing when the file has no snapshot or no range contains the position.
\<close>

theorem getSymbolAtPosition_first_within:
  "getSymbolAtPosition st uri p = firstSymbolWithin (getSnapshot st uri) p"
  by (simp add: getSymbolAtPosition_def firstSymbolWithin_def symbolAt_find split: option.splits)

text \<open>On the class document: position (2,3) is answered by the first symbol containing
  it (the File symbol), a position on a fourth line by nothing, and so is a file without
  snapshot.\<close>

theorem getSymbolAtPosition_first_within_witness:
  "getSymbolAtPosition (sv_structure (opened classFoo)) ''file:///foo.ts''
       \<lparr>lineNumber = 2, column = 3\<rparr>
     = firstSymbolWithin (getSnapshot (sv_structure (opened classFoo)) ''file:///foo.ts'')
         \<lparr>lineNumber = 2, column = 3\<rparr>
   \<and> (map_option sym_kind
         (firstSymbolWithin (getSnapshot (sv_structure (opened classFoo)) ''file:///foo.ts'')
            \<lparr>lineNumber = 2, column = 3\<rparr>) = Some File
      \<and> firstSymbolWithin (getSnapshot (sv_structure (opened classFoo)) ''file:///foo.ts'')
           \<lparr>lineNumber = 4, column = 1\<rparr> = None
      \<and> firstSymbolWithin (getSnapshot (sv_structure (opened classFoo)) ''file:///other.ts'')
           \<lparr>lineNumber = 1, column = 1\<rparr> = None)"
proof (rule conjI)
  show "getSymbolAtPosition (sv_structure (opened classFoo)) ''file:///foo.ts''
          \<lparr>lineNumber = 2, column = 3\<rparr>
        = firstSymbolWithin (getSnapshot (sv_structure (opened classFoo)) ''file:///foo.ts'')
            \<lparr>lineNumber = 2, column = 3\<rparr>"
    by (rule getSymbolAtPosition_first_within)
  show "map_option sym_kind
         (firstSymbolWithin (getSnapshot (sv_structure (opened classFoo)) ''file:///foo.ts'')
            \<lparr>lineNumber = 2, column = 3\<rparr>) = Some File
      \<and> firstSymbolWithin (getSnapshot (sv_structure (opened classFoo)) ''file:///foo.ts'')
           \<lparr>lineNumber = 4, column = 1\<rparr> = None
      \<and> firstSymbolWithin (getSnapshot (sv_structure (opened classFoo)) ''file:///other.ts'')
           \<lparr>lineNumber = 1, column = 1\<rparr> = None"
    by code_simp
qed


section \<open>The File symbol answers every position of the document\<close>

lemma fileSymbol_contains:
  assumes "inDocument t p"
  shows "containsPosition (sym_range (fileSymbol uri (splitLines t))) p"
proof -
  let ?lns = "splitLines t"
  have ne: "?lns \<noteq> []" by (rule splitLines_nonempty)
  from assms have l1: "1 \<le> lineNumber p" and l2: "lineNumber p \<le> int (length ?lns)"
    and c1: "1 \<le> column p"
    and c2: "column p \<le> int (length (?lns ! nat (lineNumber p - 1))) + 1"
    by (simp_all add: inDocument_def Let_def)
  have lastcol: "column p \<le> int (length (last ?lns)) + 1" if e: "lineNumber p = int (length ?lns)"
  proof -
    have "nat (lineNumber p - 1) = length ?lns - 1" using e ne by (simp add: nat_diff_distrib)
    with c2 show ?thesis using ne by (simp add: last_conv_nth)
  qed
  have len: "max 1 (int (length ?lns)) = int (length ?lns)" using ne
    by (cases ?lns) simp_all
  show ?thesis
    using l1 l2 c1 lastcol ne
    by (auto simp: containsPosition_def fileSymbol_def mkRange_def lastLineEndColumn_def len Let_def)
qed

text \<open>
  C9. For a snapshot produced by the indexer and a position that lies in the document,
  \<open>getSymbolAtPosition\<close> returns the File symbol, the first symbol of the snapshot: it
  never returns a Class, Function or Method symbol for such a position.
\<close>

theorem getSymbolAtPosition_always_file:
  assumes "buildSnapshot now m = Inr snap" and "getSnapshot st uri = Some snap"
    and "inDocument (model_value m) p"
  shows "getSymbolAtPosition st uri p = Some (hd (snap_symbols snap))
         \<and> sym_kind (hd (snap_symbols snap)) = File"
proof -
  from assms(1) have live: "\<not> model_disposed m"
    using buildSnapshot_Inr_iff by blast
  from assms(1)
  have syms: "snap_symbols snap = fileSymbol (model_uri m) (splitLines (model_value m))
                # scanLines (model_uri m) 1 None (splitLines (model_value m))"
    using buildSnapshot_live[OF live, of now] by auto
  show ?thesis
    using assms(2) fileSymbol_contains[OF assms(3), of "model_uri m"]
    by (simp add: getSymbolAtPosition_def syms) (simp add: fileSymbol_def)
qed

text \<open>On the class document, position (2,3) is the start of the method name \<open>bar\<close>;
  the answer is the File symbol.\<close>

theorem getSymbolAtPosition_always_file_witness:
  "buildSnapshot 0 classFoo
     = Inr (the (getSnapshot (sv_structure (opened classFoo)) ''file:///foo.ts''))
   \<and> getSnapshot (sv_structure (opened classFoo)) ''file:///foo.ts''
       = Some (the (getSnapshot (sv_structure (opened classFoo)) ''file:///foo.ts''))
   \<and> inDocument (model_value classFoo) \<lparr>lineNumber = 2, column = 3\<rparr>
   \<and> map_option sym_kind
        (getSymbolAtPosition (sv_structure (opened classFoo)) ''file:///foo.ts''
           \<lparr>lineNumber = 2, column = 3\<rparr>) = Some File"
proof -
  let ?st = "sv_structure (opened classFoo)"
  have a: "buildSnapshot 0 classFoo = Inr (the (getSnapshot ?st ''file:///foo.ts''))"
    by code_simp
  have b: "getSnapshot ?st ''file:///foo.ts'' = Some (the (getSnapshot ?st ''file:///foo.ts''))"
    by code_simp
  have c: "inDocument (model_value classFoo) \<lparr>lineNumber = 2, column = 3\<rparr>"
    by code_simp
  from getSymbolAtPosition_always_file [OF a b c] a b c show ?thesis by simp
qed


section \<open>Failure of a recomputation\<close>

lemma recomputeSnapshot_disposed:
  "model_disposed m \<Longrightarrow>
   recomputeSnapshot now m st =
     st\<lparr>structureLog := structureLog st
          @ [Debug ''[CodeStructureService] Failed to compute snapshot'' (model_uri m)]\<rparr>"
  by (simp add: recomputeSnapshot_def buildSnapshot_disposed)

lemma runRecompute_disposed:
  "model_disposed m \<Longrightarrow>
   runRecompute now clock m sv = sv\<lparr>sv_structure := recomputeSnapshot now m (sv_structure sv)\<rparr>"
  by (simp add: runRecompute_def recomputeSnapshot_disposed Let_def)

text \<open>
  C6. If extraction throws, \<open>recomputeSnapshot\<close> catches and logs: the snapshot map (so the
  previously stored snapshot, if any) is unchanged, no \<open>onDidUpdateSnapshot\<close> event is
  fired, and neither subscriber runs. Only when extraction succeeds is the snapshot
  stored and the event fired.
\<close>

theorem recomputeSnapshot_failure_preserves:
  "(\<forall>e. buildSnapshot now m = Inl e \<longrightarrow>
        snapshots (recomputeSnapshot now m st) = snapshots st
      \<and> snapshotUpdates (recomputeSnapshot now m st) = snapshotUpdates st
      \<and> structureLog (recomputeSnapshot now m st)
          = structureLog st @ [Debug ''[CodeStructureService] Failed to compute snapshot'' (model_uri m)]
      \<and> sv_graph (runRecompute now clock m sv) = sv_graph sv
      \<and> sv_history (runRecompute now clock m sv) = sv_history sv)
   \<and> (\<forall>snap. buildSnapshot now m = Inr snap \<longrightarrow>
        snapshots (recomputeSnapshot now m st) = (snapshots st)(model_uri m \<mapsto> snap)
      \<and> snapshotUpdates (recomputeSnapshot now m st) = snapshotUpdates st @ [model_uri m]
      \<and> structureLog (recomputeSnapshot now m st) = structureLog st)"
proof (cases "model_disposed m")
  case True
  then show ?thesis
    by (simp add: buildSnapshot_disposed recomputeSnapshot_disposed runRecompute_disposed)
next
  case False
  then show ?thesis
    by (simp add: recomputeSnapshot_def buildSnapshot_live)
qed

text \<open>A disposed model makes extraction throw; the snapshot stored before stays. The
  live model succeeds.\<close>

theorem recomputeSnapshot_failure_preserves_witness:
  "buildSnapshot 5 (classFoo\<lparr>model_disposed := True\<rparr>) = Inl ModelDisposed
   \<and> getSnapshot (sv_structure (opened classFoo)) ''file:///foo.ts'' \<noteq> None
   \<and> snapshots (recomputeSnapshot 5 (classFoo\<lparr>model_disposed := True\<rparr>) (sv_structure (opened classFoo)))
       = snapshots (sv_structure (opened classFoo))
   \<and> snapshotUpdates (recomputeSnapshot 5 (classFoo\<lparr>model_disposed := True\<rparr>) (sv_structure (opened classFoo)))
       = snapshotUpdates (sv_structure (opened classFoo))
   \<and> (\<exists>snap. buildSnapshot 5 classFoo = Inr snap
        \<and> snapshots (recomputeSnapshot 5 classFoo structure_init) = (snapshots structure_init)(model_uri classFoo \<mapsto> snap)
        \<and> snapshotUpdates (recomputeSnapshot 5 classFoo structure_init) = [model_uri classFoo])"
proof -
  have d: "model_disposed (classFoo\<lparr>model_disposed := True\<rparr>)" by simp
  have l: "\<not> model_disposed classFoo" by (simp add: classFoo_def liveModel_def)
  have a: "buildSnapshot 5 (classFoo\<lparr>model_disposed := True\<rparr>) = Inl ModelDisposed"
    by (simp add: buildSnapshot_disposed)
  have b: "getSnapshot (sv_structure (opened classFoo)) ''file:///foo.ts'' \<noteq> None"
    by code_simp
  obtain snap where s: "buildSnapshot 5 classFoo = Inr snap"
    using l buildSnapshot_Inr_iff by blast
  have i: "snapshotUpdates structure_init = []" by (simp add: structure_init_def)
  from recomputeSnapshot_failure_preserves [of 5 "classFoo\<lparr>model_disposed := True\<rparr>" "sv_structure (opened classFoo)" "\<lambda>n. 0" services_init]
       recomputeSnapshot_failure_preserves [of 5 classFoo structure_init "\<lambda>n. 0" services_init] a b s i
  show ?thesis by auto
qed

section \<open>The size ceiling\<close>

text \<open>
  C4, as stated, fails: the indexer has no size check. For a supported document of 200001
  code units, above the ceiling, \<open>recomputeSnapshot\<close> stores a snapshot where there was
  none, fires the event and logs nothing.
\<close>

theorem indexer_size_ceiling_counterexample:
  "isSupported bigDocument
   \<and> getValueLength bigDocument = Inr 200001
   \<and> MAX_FILE_LENGTH_FOR_SCAN < 200001
   \<and> getSnapshot structure_init ''file:///big.ts'' = None
   \<and> getSnapshot (recomputeSnapshot 0 bigDocument structure_init) ''file:///big.ts'' \<noteq> None
   \<and> snapshotUpdates (recomputeSnapshot 0 bigDocument structure_init) = [''file:///big.ts'']
   \<and> structureLog (recomputeSnapshot 0 bigDocument structure_init) = []"
  by (simp add: bigDocument_def liveModel_def isSupported_def getValueLength_def
      MAX_FILE_LENGTH_FOR_SCAN_def recomputeSnapshot_live getSnapshot_def structure_init_def)

text \<open>
  C4, amended. Whatever the size of a live document, the indexer stores its snapshot,
  fires the update event and logs nothing. The ceiling of 200000 code units is applied by
  the call-graph builder: for a longer document \<open>rebuildForUri\<close> changes nothing but its
  log, to which it adds one debug entry; it fires no event and raises no error.
\<close>

theorem size_ceiling_in_graph_builder:
  "(\<not> model_disposed m \<longrightarrow>
       getSnapshot (recomputeSnapshot now m st) (model_uri m) \<noteq> None
     \<and> snapshotUpdates (recomputeSnapshot now m st) = snapshotUpdates st @ [model_uri m]
     \<and> structureLog (recomputeSnapshot now m st) = structureLog st)
   \<and> (getSnapshot ss uri \<noteq> None \<and> models uri = Some d \<and> \<not> model_disposed d
        \<and> MAX_FILE_LENGTH_FOR_SCAN < int (length (model_value d)) \<longrightarrow>
       rebuildForUri ss models uri g
         = Inr (g\<lparr>graphLog := graphLog g
                   @ [Debug ''[CodeGraphService] Skipping graph rebuild for large file'' uri]\<rparr>))"
  by (auto simp: recomputeSnapshot_live getSnapshot_def rebuildForUri_def getValueLength_def)

theorem size_ceiling_in_graph_builder_witness:
  "\<not> model_disposed bigDocument
   \<and> MAX_FILE_LENGTH_FOR_SCAN < int (length (model_value bigDocument))
   \<and> getSnapshot (recomputeSnapshot 0 bigDocument structure_init) ''file:///big.ts'' \<noteq> None
   \<and> rebuildForUri (recomputeSnapshot 0 bigDocument structure_init)
        [''file:///big.ts'' \<mapsto> bigDocument] ''file:///big.ts'' graph_init
       = Inr (graph_init\<lparr>graphLog :=
               [Debug ''[CodeGraphService] Skipping graph rebuild for large file'' ''file:///big.ts'']\<rparr>)"
proof -
  have l: "\<not> model_disposed bigDocument" by (simp add: bigDocument_def liveModel_def)
  have u: "model_uri bigDocument = ''file:///big.ts''" by (simp add: bigDocument_def liveModel_def)
  have n: "MAX_FILE_LENGTH_FOR_SCAN < int (length (model_value bigDocument))"
    by (simp add: bigDocument_def liveModel_def MAX_FILE_LENGTH_FOR_SCAN_def)
  have gl: "graphLog graph_init = []" by (simp add: graph_init_def)
  from size_ceiling_in_graph_builder [of bigDocument 0 structure_init "recomputeSnapshot 0 bigDocument structure_init"
      "''file:///big.ts''" "[''file:///big.ts'' \<mapsto> bigDocument]" bigDocument graph_init] l u n gl
  show ?thesis by simp
qed



section \<open>Methods and their classes\<close>

lemma nameRange_lines [simp]:
  "startLineNumber (nameRange line name n) = n" "endLineNumber (nameRange line name n) = n"
  by (simp_all add: nameRange_def mkRange_def Let_def)

lemma later_line_not_contained:
  "endLineNumber outer < startLineNumber inner \<Longrightarrow> \<not> containsRange outer inner"
  by (simp add: containsRange_def containsPosition_def)

lemma scanLines_container:
  "s \<in> set (scanLines uri n cur lns) \<Longrightarrow> sym_containerId s = Some cid \<Longrightarrow>
     sym_kind s = Method \<and> n \<le> startLineNumber (sym_range s)
     \<and> (cur = Some cid
         \<or> (\<exists>c \<in> set (scanLines uri n cur lns).
               sym_id c = cid \<and> sym_kind c = Class
               \<and> endLineNumber (sym_range c) < startLineNumber (sym_range s)))"
proof (induction lns arbitrary: n cur)
  case Nil
  then show ?case by simp
next
  case (Cons line rest)
  show ?case
  proof (cases "rxGroup (rxExec classRx line) 3")
    case (Some name)
    let ?c = "classSymbol uri line name n"
    from Cons.prems Some have "s = ?c \<or> s \<in> set (scanLines uri (n + 1) (Some (buildSymbolId uri name n)) rest)"
      by simp
    then show ?thesis
    proof
      assume "s = ?c" with Cons.prems(2) show ?thesis by (simp add: classSymbol_def)
    next
      assume r: "s \<in> set (scanLines uri (n + 1) (Some (buildSymbolId uri name n)) rest)"
      from Cons.IH[OF r Cons.prems(2)]
      have k: "sym_kind s = Method" and l: "n + 1 \<le> startLineNumber (sym_range s)"
        and d: "Some (buildSymbolId uri name n) = Some cid
         \<or> (\<exists>c \<in> set (scanLines uri (n + 1) (Some (buildSymbolId uri name n)) rest).
               sym_id c = cid \<and> sym_kind c = Class
               \<and> endLineNumber (sym_range c) < startLineNumber (sym_range s))"
        by auto
      from d have "\<exists>c \<in> set (scanLines uri n cur (line # rest)).
               sym_id c = cid \<and> sym_kind c = Class
               \<and> endLineNumber (sym_range c) < startLineNumber (sym_range s)"
      proof
        assume "Some (buildSymbolId uri name n) = Some cid"
        then have "sym_id ?c = cid \<and> sym_kind ?c = Class
               \<and> endLineNumber (sym_range ?c) < startLineNumber (sym_range s)"
          using l by (simp add: classSymbol_def)
        then show ?thesis using Some by auto
      next
        assume "\<exists>c \<in> set (scanLines uri (n + 1) (Some (buildSymbolId uri name n)) rest).
               sym_id c = cid \<and> sym_kind c = Class
               \<and> endLineNumber (sym_range c) < startLineNumber (sym_range s)"
        then show ?thesis using Some by auto
      qed
      with k l show ?thesis by simp
    qed
  next
    case None
    note noclass = None
    show ?thesis
    proof (cases "rxGroup (rxExec functionRx line) 3")
      case (Some name)
      from Cons.prems noclass Some
      have "s = functionSymbol uri line name n \<or> s \<in> set (scanLines uri (n + 1) cur rest)"
        by simp
      then show ?thesis
      proof
        assume "s = functionSymbol uri line name n"
        with Cons.prems(2) show ?thesis by (simp add: functionSymbol_def)
      next
        assume r: "s \<in> set (scanLines uri (n + 1) cur rest)"
        from Cons.IH[OF r Cons.prems(2)] show ?thesis using noclass Some by auto
      qed
    next
      case None
      note nofun = None
      show ?thesis
      proof (cases "\<exists>name. rxGroup (rxExec methodRx line) 4 = Some name \<and> truthy cur")
        case True
        then obtain name where mm: "rxGroup (rxExec methodRx line) 4 = Some name" and tc: "truthy cur"
          by blast
        from tc obtain cc where cc: "cur = Some cc" by (auto simp: truthy_def split: option.splits)
        from Cons.prems noclass nofun mm tc
        have "s = methodSymbol uri line name n (the cur) \<or> s \<in> set (scanLines uri (n + 1) cur rest)"
          by simp
        then show ?thesis
        proof
          assume "s = methodSymbol uri line name n (the cur)"
          with Cons.prems(2) cc show ?thesis by (simp add: methodSymbol_def)
        next
          assume r: "s \<in> set (scanLines uri (n + 1) cur rest)"
          from Cons.IH[OF r Cons.prems(2)] show ?thesis using noclass nofun mm tc by auto
        qed
      next
        case False
        then have eq: "scanLines uri n cur (line # rest)
                   = scanLines uri (n + 1) (if isBlank line then None else cur) rest"
          using noclass nofun by (auto split: option.splits bool.splits)
        from Cons.prems eq have r: "s \<in> set (scanLines uri (n + 1) (if isBlank line then None else cur) rest)"
          by simp
        from Cons.IH[OF r Cons.prems(2)] show ?thesis unfolding eq by (auto split: if_splits)
      qed
    qed
  qed
qed

text \<open>
  C3, as stated, fails. For \<open>"class Foo {\n  bar() {}\n}"\<close> the snapshot holds the Class
  \<open>Foo\<close> with range (1,7)-(1,10) and the Method \<open>bar\<close>, whose \<open>containerId\<close> is the id of
  \<open>Foo\<close>, with range (2,3)-(2,6): the method's range is not within the class's range.
\<close>

theorem method_range_in_class_counterexample:
  "(case buildSnapshot 0 classFoo of
      Inl e \<Rightarrow> []
    | Inr snap \<Rightarrow> map (\<lambda>s. (sym_kind s, sym_name s, sym_id s, sym_containerId s,
                              startLineNumber (sym_range s), startColumn (sym_range s),
                              endLineNumber (sym_range s), endColumn (sym_range s)))
                    (snap_symbols snap))
     = [(File, ''foo.ts'', ''file:///foo.ts::<file>@1'', None, 1, 1, 3, 2),
        (Class, ''Foo'', ''file:///foo.ts::Foo@1'', None, 1, 7, 1, 10),
        (Method, ''bar'', ''file:///foo.ts::bar@file:///foo.ts::Foo@1@2'',
           Some ''file:///foo.ts::Foo@1'', 2, 3, 2, 6)]
   \<and> \<not> containsRange (mkRange 1 7 1 10) (mkRange 2 3 2 6)"
  by code_simp


text \<open>
  C3, amended. In every snapshot the indexer produces, a symbol whose \<open>containerId\<close> is
  set is a Method, and the snapshot holds a Class symbol with that id whose range lies on
  a strictly earlier line. Every range is the name's span on the declaration line, so the
  method's range is never contained within the class's range.
\<close>

theorem method_container_on_earlier_line:
  assumes "buildSnapshot now m = Inr snap" and "s \<in> set (snap_symbols snap)"
    and "sym_containerId s = Some cid"
  shows "sym_kind s = Method
         \<and> (\<exists>c \<in> set (snap_symbols snap).
               sym_id c = cid \<and> sym_kind c = Class
               \<and> endLineNumber (sym_range c) < startLineNumber (sym_range s)
               \<and> \<not> containsRange (sym_range c) (sym_range s))"
proof -
  from assms(1) have live: "\<not> model_disposed m"
    using buildSnapshot_Inr_iff by blast
  let ?lns = "splitLines (model_value m)"
  from assms(1)
  have syms: "snap_symbols snap = fileSymbol (model_uri m) ?lns # scanLines (model_uri m) 1 None ?lns"
    using buildSnapshot_live[OF live, of now] by auto
  from assms(2,3) syms have "s \<in> set (scanLines (model_uri m) 1 None ?lns)"
    by (auto simp: fileSymbol_def)
  from scanLines_container[OF this assms(3)]
  have k: "sym_kind s = Method"
    and "\<exists>c \<in> set (scanLines (model_uri m) 1 None ?lns).
               sym_id c = cid \<and> sym_kind c = Class
               \<and> endLineNumber (sym_range c) < startLineNumber (sym_range s)"
    by auto
  then obtain c where "c \<in> set (snap_symbols snap)" "sym_id c = cid" "sym_kind c = Class"
    "endLineNumber (sym_range c) < startLineNumber (sym_range s)"
    using syms by auto
  with k later_line_not_contained show ?thesis by blast
qed


theorem method_container_on_earlier_line_witness:
  "buildSnapshot 0 classFoo
     = Inr (the (getSnapshot (sv_structure (opened classFoo)) ''file:///foo.ts''))
   \<and> snap_symbols (the (getSnapshot (sv_structure (opened classFoo)) ''file:///foo.ts'')) ! 2
       \<in> set (snap_symbols (the (getSnapshot (sv_structure (opened classFoo)) ''file:///foo.ts'')))
   \<and> sym_containerId
        (snap_symbols (the (getSnapshot (sv_structure (opened classFoo)) ''file:///foo.ts'')) ! 2)
       = Some ''file:///foo.ts::Foo@1''
   \<and> sym_kind
        (snap_symbols (the (getSnapshot (sv_structure (opened classFoo)) ''file:///foo.ts'')) ! 2)
       = Method
   \<and> (\<exists>c \<in> set (snap_symbols (the (getSnapshot (sv_structure (opened classFoo)) ''file:///foo.ts''))).
         sym_id c = ''file:///foo.ts::Foo@1'' \<and> sym_kind c = Class
         \<and> endLineNumber (sym_range c)
             < startLineNumber (sym_range
                 (snap_symbols (the (getSnapshot (sv_structure (opened classFoo)) ''file:///foo.ts'')) ! 2))
         \<and> \<not> containsRange (sym_range c)
               (sym_range
                 (snap_symbols (the (getSnapshot (sv_structure (opened classFoo)) ''file:///foo.ts'')) ! 2)))"
proof -
  let ?snap = "the (getSnapshot (sv_structure (opened classFoo)) ''file:///foo.ts'')"
  have a: "buildSnapshot 0 classFoo = Inr ?snap"
    by code_simp
  have b: "snap_symbols ?snap ! 2 \<in> set (snap_symbols ?snap)"
    by code_simp
  have c: "sym_containerId (snap_symbols ?snap ! 2) = Some ''file:///foo.ts::Foo@1''"
    by code_simp
  from method_container_on_earlier_line [OF a b c] a b c show ?thesis by simp
qed


section \<open>History recorder: the diff of two snapshots\<close>

lemma map_of_mapSet: "map_of (mapSet k v m) = (map_of m)(k \<mapsto> v)"
  by (induction m) (auto simp: fun_eq_iff)

lemma keys_mapSet: "fst ` set (mapSet k v m) = insert k (fst ` set m)"
proof (induction m)
  case Nil
  then show ?case by simp
next
  case (Cons a m)
  obtain k' v' where a: "a = (k', v')" by (cases a)
  show ?case
  proof (cases "k' = k")
    case True
    with a show ?thesis by simp
  next
    case False
    with a Cons.IH show ?thesis by (simp add: insert_commute)
  qed
qed

lemma distinct_mapSet: "distinct (map fst m) \<Longrightarrow> distinct (map fst (mapSet k v m))"
proof (induction m)
  case Nil
  then show ?case by simp
next
  case (Cons a m)
  obtain k' v' where a: "a = (k', v')" by (cases a)
  show ?case
  proof (cases "k' = k")
    case True
    with Cons.prems a show ?thesis by simp
  next
    case False
    from Cons.prems a have "k' \<notin> fst ` set m" and "distinct (map fst m)" by auto
    with Cons.IH False a keys_mapSet[of k v m] show ?thesis by simp
  qed
qed

lemma map_of_byId:
  "map_of (byId syms m) = fold (\<lambda>s m. m(sym_id s \<mapsto> sym_name s)) syms (map_of m)"
  by (induction syms arbitrary: m) (simp_all add: map_of_mapSet)

lemma distinct_byId: "distinct (map fst m) \<Longrightarrow> distinct (map fst (byId syms m))"
  by (induction syms arbitrary: m) (simp_all add: distinct_mapSet)

lemma mapGet_byId: "mapGet (byId (snap_symbols snap) []) sid = idToName snap sid"
  by (simp add: mapGet_def map_of_byId idToName_def)

lemma in_keys_iff: "sid \<in> fst ` set m \<longleftrightarrow> map_of m sid \<noteq> None"
  by (simp add: map_of_eq_None_iff)

lemma countEvents_Nil [simp]: "countEvents k sid [] = 0"
  by (simp add: countEvents_def)

lemma countEvents_Cons:
  "countEvents k sid (e # evs)
    = (if ev_kind e = k \<and> ev_symbolId e = Some sid then 1 else 0) + countEvents k sid evs"
  by (simp add: countEvents_def)

lemma countEvents_append:
  "countEvents k sid (xs @ ys) = countEvents k sid xs + countEvents k sid ys"
  by (simp add: countEvents_def)

lemma countEvents_other_kind:
  "\<forall>e \<in> set evs. ev_kind e \<noteq> k \<Longrightarrow> countEvents k sid evs = 0"
  by (induction evs) (simp_all add: countEvents_Cons)

lemma removedEvents_step:
  "removedEvents clock uri sref N ((id0, nm) # P) n = (evs, n') \<Longrightarrow>
   (mapGet N id0 = None \<and> (\<exists>evs1. removedEvents clock uri sref N P (n + 1) = (evs1, n')
        \<and> evs = createEvent clock n uri (Some id0) SymbolRemoved (''Removed symbol '' @ nm) sref # evs1))
   \<or> (mapGet N id0 \<noteq> None \<and> removedEvents clock uri sref N P n = (evs, n'))"
  by (cases "removedEvents clock uri sref N P (n + 1)") (auto split: if_splits)

lemma createEvent_fields [simp]:
  "ev_kind (createEvent clock n uri sid kind summary sref) = kind"
  "ev_symbolId (createEvent clock n uri sid kind summary sref) = sid"
  "ev_snapshot (createEvent clock n uri sid kind summary sref) = sref"
  "ev_uri (createEvent clock n uri sid kind summary sref) = uri"
  by (simp_all add: createEvent_def)

lemma removedEvents_set:
  "removedEvents clock uri sref N P n = (evs, n') \<Longrightarrow> e \<in> set evs \<Longrightarrow>
     ev_kind e = SymbolRemoved \<and> ev_symbolId e \<noteq> None \<and> ev_snapshot e = sref \<and> ev_uri e = uri"
proof (induction P arbitrary: n evs n')
  case Nil
  then show ?case by simp
next
  case (Cons a P)
  obtain id0 nm where a: "a = (id0, nm)" by (cases a)
  from removedEvents_step[OF Cons.prems(1)[unfolded a]]
  show ?case
  proof (elim disjE conjE exE)
    fix evs1
    assume r: "removedEvents clock uri sref N P (n + 1) = (evs1, n')"
      and e: "evs = createEvent clock n uri (Some id0) SymbolRemoved (''Removed symbol '' @ nm) sref # evs1"
    from Cons.prems(2) e
    have "e = createEvent clock n uri (Some id0) SymbolRemoved (''Removed symbol '' @ nm) sref
          \<or> e \<in> set evs1" by simp
    then show ?thesis
    proof
      assume "e = createEvent clock n uri (Some id0) SymbolRemoved (''Removed symbol '' @ nm) sref"
      then show ?thesis by simp
    next
      assume "e \<in> set evs1"
      from Cons.IH[OF r this] show ?thesis .
    qed
  next
    assume "removedEvents clock uri sref N P n = (evs, n')"
    from Cons.IH[OF this Cons.prems(2)] show ?thesis .
  qed
qed

lemma removedEvents_count:
  "distinct (map fst P) \<Longrightarrow> removedEvents clock uri sref N P n = (evs, n') \<Longrightarrow>
     countEvents SymbolRemoved sid evs = (if sid \<in> fst ` set P \<and> mapGet N sid = None then 1 else 0)"
proof (induction P arbitrary: n evs n')
  case Nil
  then show ?case by simp
next
  case (Cons a P)
  obtain id0 nm where a: "a = (id0, nm)" by (cases a)
  from Cons.prems(1) a have d: "distinct (map fst P)" and notin: "id0 \<notin> fst ` set P" by auto
  have keys: "sid \<in> fst ` set (a # P) \<longleftrightarrow> sid = id0 \<or> sid \<in> fst ` set P"
    unfolding a by auto
  from removedEvents_step[OF Cons.prems(2)[unfolded a]]
  show ?case
  proof (elim disjE conjE exE)
    fix evs1
    assume g: "mapGet N id0 = None"
      and r: "removedEvents clock uri sref N P (n + 1) = (evs1, n')"
      and e: "evs = createEvent clock n uri (Some id0) SymbolRemoved (''Removed symbol '' @ nm) sref # evs1"
    have "countEvents SymbolRemoved sid evs
            = (if sid = id0 then 1 else 0) + countEvents SymbolRemoved sid evs1"
      unfolding e by (simp add: countEvents_Cons)
    also have "countEvents SymbolRemoved sid evs1
            = (if sid \<in> fst ` set P \<and> mapGet N sid = None then 1 else 0)"
      by (rule Cons.IH[OF d r])
    finally show ?thesis using notin g unfolding keys by auto
  next
    assume g: "mapGet N id0 \<noteq> None" and r: "removedEvents clock uri sref N P n = (evs, n')"
    from Cons.IH[OF d r] notin g show ?thesis unfolding keys by auto
  qed
qed

lemma addedChangedEvents_step:
  "addedChangedEvents clock uri sref P ((id0, nm) # N) n = (evs, n') \<Longrightarrow>
   (mapGet P id0 = None \<and> (\<exists>evs1. addedChangedEvents clock uri sref P N (n + 1) = (evs1, n')
        \<and> evs = createEvent clock n uri (Some id0) SymbolAdded (''Added symbol '' @ nm) sref # evs1))
   \<or> (\<exists>pn. mapGet P id0 = Some pn \<and> pn \<noteq> nm
        \<and> (\<exists>evs1. addedChangedEvents clock uri sref P N (n + 1) = (evs1, n')
        \<and> evs = createEvent clock n uri (Some id0) SymbolChanged
                   (''Renamed symbol '' @ pn @ '' '' @ renameArrow @ '' '' @ nm) sref # evs1))
   \<or> (mapGet P id0 = Some nm \<and> addedChangedEvents clock uri sref P N n = (evs, n'))"
  by (cases "addedChangedEvents clock uri sref P N (n + 1)"; cases "mapGet P id0")
     (auto split: if_splits)

lemma addedChangedEvents_set:
  "addedChangedEvents clock uri sref P N n = (evs, n') \<Longrightarrow> e \<in> set evs \<Longrightarrow>
     ev_kind e \<noteq> SymbolRemoved \<and> ev_symbolId e \<noteq> None \<and> ev_snapshot e = sref \<and> ev_uri e = uri"
proof (induction N arbitrary: n evs n')
  case Nil
  then show ?case by simp
next
  case (Cons a N)
  obtain id0 nm where a: "a = (id0, nm)" by (cases a)
  from addedChangedEvents_step[OF Cons.prems(1)[unfolded a]]
  show ?case
  proof (elim disjE conjE exE)
    fix evs1
    assume r: "addedChangedEvents clock uri sref P N (n + 1) = (evs1, n')"
      and e: "evs = createEvent clock n uri (Some id0) SymbolAdded (''Added symbol '' @ nm) sref # evs1"
    from Cons.prems(2) e
    have "e = createEvent clock n uri (Some id0) SymbolAdded (''Added symbol '' @ nm) sref
          \<or> e \<in> set evs1" by simp
    then show ?thesis
    proof
      assume "e = createEvent clock n uri (Some id0) SymbolAdded (''Added symbol '' @ nm) sref"
      then show ?thesis by simp
    next
      assume "e \<in> set evs1"
      from Cons.IH[OF r this] show ?thesis .
    qed
  next
    fix pn evs1
    assume r: "addedChangedEvents clock uri sref P N (n + 1) = (evs1, n')"
      and e: "evs = createEvent clock n uri (Some id0) SymbolChanged
                   (''Renamed symbol '' @ pn @ '' '' @ renameArrow @ '' '' @ nm) sref # evs1"
    from Cons.prems(2) e
    have "e = createEvent clock n uri (Some id0) SymbolChanged
                   (''Renamed symbol '' @ pn @ '' '' @ renameArrow @ '' '' @ nm) sref
          \<or> e \<in> set evs1" by simp
    then show ?thesis
    proof
      assume "e = createEvent clock n uri (Some id0) SymbolChanged
                   (''Renamed symbol '' @ pn @ '' '' @ renameArrow @ '' '' @ nm) sref"
      then show ?thesis by simp
    next
      assume "e \<in> set evs1"
      from Cons.IH[OF r this] show ?thesis .
    qed
  next
    assume "addedChangedEvents clock uri sref P N n = (evs, n')"
    from Cons.IH[OF this Cons.prems(2)] show ?thesis .
  qed
qed

lemma addedChangedEvents_count:
  "distinct (map fst N) \<Longrightarrow> addedChangedEvents clock uri sref P N n = (evs, n') \<Longrightarrow>
     countEvents SymbolAdded sid evs = (if sid \<in> fst ` set N \<and> mapGet P sid = None then 1 else 0)
   \<and> countEvents SymbolChanged sid evs
       = (if sid \<in> fst ` set N \<and> mapGet P sid \<noteq> None \<and> mapGet P sid \<noteq> map_of N sid then 1 else 0)"
proof (induction N arbitrary: n evs n')
  case Nil
  then show ?case by simp
next
  case (Cons a N)
  obtain id0 nm where a: "a = (id0, nm)" by (cases a)
  from Cons.prems(1) a have d: "distinct (map fst N)" and notin: "id0 \<notin> fst ` set N" by auto
  have keys: "sid \<in> fst ` set (a # N) \<longleftrightarrow> sid = id0 \<or> sid \<in> fst ` set N"
    unfolding a by auto
  have look: "map_of (a # N) sid = (if sid = id0 then Some nm else map_of N sid)"
    unfolding a by simp
  from addedChangedEvents_step[OF Cons.prems(2)[unfolded a]]
  show ?case
  proof (elim disjE conjE exE)
    fix evs1
    assume g: "mapGet P id0 = None"
      and r: "addedChangedEvents clock uri sref P N (n + 1) = (evs1, n')"
      and e: "evs = createEvent clock n uri (Some id0) SymbolAdded (''Added symbol '' @ nm) sref # evs1"
    have c: "countEvents SymbolAdded sid evs
               = (if sid = id0 then 1 else 0) + countEvents SymbolAdded sid evs1"
         "countEvents SymbolChanged sid evs = countEvents SymbolChanged sid evs1"
      unfolding e by (simp_all add: countEvents_Cons)
    from Cons.IH[OF d r] notin g show ?thesis
      unfolding c keys look by auto
  next
    fix pn evs1
    assume g: "mapGet P id0 = Some pn" "pn \<noteq> nm"
      and r: "addedChangedEvents clock uri sref P N (n + 1) = (evs1, n')"
      and e: "evs = createEvent clock n uri (Some id0) SymbolChanged
                   (''Renamed symbol '' @ pn @ '' '' @ renameArrow @ '' '' @ nm) sref # evs1"
    have c: "countEvents SymbolChanged sid evs
               = (if sid = id0 then 1 else 0) + countEvents SymbolChanged sid evs1"
         "countEvents SymbolAdded sid evs = countEvents SymbolAdded sid evs1"
      unfolding e by (simp_all add: countEvents_Cons)
    from Cons.IH[OF d r] notin g show ?thesis
      unfolding c keys look by auto
  next
    assume g: "mapGet P id0 = Some nm" and r: "addedChangedEvents clock uri sref P N n = (evs, n')"
    from Cons.IH[OF d r] notin g show ?thesis
      unfolding keys look by auto
  qed
qed

lemma removal_prefix:
  "\<forall>e \<in> set xs. ev_kind e = SymbolRemoved \<Longrightarrow> \<forall>e \<in> set ys. ev_kind e \<noteq> SymbolRemoved \<Longrightarrow>
   i < length (xs @ ys) \<Longrightarrow> (ev_kind ((xs @ ys) ! i) = SymbolRemoved) = (i < length xs)"
  by (auto simp: nth_append)

lemma computeDiffEvents_spec:
  assumes "computeDiffEvents clock previous next n = (evs, n')"
  shows "countEvents SymbolRemoved sid evs
           = (if idToName previous sid \<noteq> None \<and> idToName next sid = None then 1 else 0)"
    and "countEvents SymbolAdded sid evs
           = (if idToName next sid \<noteq> None \<and> idToName previous sid = None then 1 else 0)"
    and "countEvents SymbolChanged sid evs
           = (if idToName previous sid \<noteq> None \<and> idToName next sid \<noteq> None
                 \<and> idToName previous sid \<noteq> idToName next sid then 1 else 0)"
    and "\<forall>e \<in> set evs. ev_symbolId e \<noteq> None
            \<and> ev_snapshot e = \<lparr>ref_uri = snap_uri next, ref_version = snap_version next\<rparr>"
    and "\<exists>k. \<forall>i < length evs. (ev_kind (evs ! i) = SymbolRemoved) = (i < k)"
proof -
  let ?P = "byId (snap_symbols previous) []" and ?N = "byId (snap_symbols next) []"
  let ?r = "\<lparr>ref_uri = snap_uri next, ref_version = snap_version next\<rparr>"
  obtain rem n1 where rem: "removedEvents clock (snap_uri next) ?r ?N ?P n = (rem, n1)"
    by (cases "removedEvents clock (snap_uri next) ?r ?N ?P n")
  obtain add n2 where add: "addedChangedEvents clock (snap_uri next) ?r ?P ?N n1 = (add, n2)"
    by (cases "addedChangedEvents clock (snap_uri next) ?r ?P ?N n1")
  from assms rem add have evs: "evs = rem @ add"
    by (simp add: computeDiffEvents_def Let_def)
  have dP: "distinct (map fst ?P)" and dN: "distinct (map fst ?N)"
    by (simp_all add: distinct_byId)
  have kP: "sid \<in> fst ` set ?P \<longleftrightarrow> idToName previous sid \<noteq> None" for sid
    using in_keys_iff[of sid ?P] mapGet_byId[of previous sid] by (simp add: mapGet_def)
  have kN: "sid \<in> fst ` set ?N \<longleftrightarrow> idToName next sid \<noteq> None" for sid
    using in_keys_iff[of sid ?N] mapGet_byId[of "next" sid] by (simp add: mapGet_def)
  have mN: "map_of ?N sid = idToName next sid" for sid
    using mapGet_byId[of "next" sid] by (simp add: mapGet_def)
  have remK: "\<forall>e \<in> set rem. ev_kind e = SymbolRemoved"
    using removedEvents_set[OF rem] by blast
  have addK: "\<forall>e \<in> set add. ev_kind e \<noteq> SymbolRemoved"
    using addedChangedEvents_set[OF add] by blast
  have c1: "countEvents SymbolRemoved sid add = 0"
    using addK by (intro countEvents_other_kind) auto
  have c2: "countEvents SymbolAdded sid rem = 0" "countEvents SymbolChanged sid rem = 0"
    using remK by (auto intro!: countEvents_other_kind)
  show "countEvents SymbolRemoved sid evs
           = (if idToName previous sid \<noteq> None \<and> idToName next sid = None then 1 else 0)"
    using removedEvents_count[OF dP rem, of sid] c1 kP[of sid]
    by (simp add: evs countEvents_append mapGet_byId)
  show "countEvents SymbolAdded sid evs
           = (if idToName next sid \<noteq> None \<and> idToName previous sid = None then 1 else 0)"
    using addedChangedEvents_count[OF dN add, of sid] c2 kN[of sid]
    by (simp add: evs countEvents_append mapGet_byId)
  show "countEvents SymbolChanged sid evs
           = (if idToName previous sid \<noteq> None \<and> idToName next sid \<noteq> None
                 \<and> idToName previous sid \<noteq> idToName next sid then 1 else 0)"
    using addedChangedEvents_count[OF dN add, of sid] c2 kN[of sid] mN[of sid]
    by (simp add: evs countEvents_append mapGet_byId)
  show "\<forall>e \<in> set evs. ev_symbolId e \<noteq> None \<and> ev_snapshot e = ?r"
    using removedEvents_set[OF rem] addedChangedEvents_set[OF add] by (auto simp: evs)
  show "\<exists>k. \<forall>i < length evs. (ev_kind (evs ! i) = SymbolRemoved) = (i < k)"
    using removal_prefix[OF remK addK] unfolding evs by blast
qed


text \<open>
  C5. One pass of the history recorder for a file with a model and a new snapshot. If no
  previous snapshot is remembered for the file, no event is emitted. Otherwise the events
  emitted (fired and appended to the file's log) hold exactly one SymbolRemoved event for
  each id of the id-to-name map of the previous snapshot that is absent from the next,
  one SymbolAdded event for each id of the next that is absent from the previous, one
  SymbolChanged event for each id of both whose names differ, and nothing else; every
  event refers to the next snapshot's uri and version; all removals come first.
\<close>

theorem snapshot_diff_events:
  assumes "models uri = Some m" and "getSnapshot ss uri = Some next"
  shows
    "(case (case perFile h uri of None \<Rightarrow> None | Some pf \<Rightarrow> pf_lastSnapshot pf) of
        None \<Rightarrow>
          recordedEvents (onSnapshotUpdated clock ss models uri h) = recordedEvents h
          \<and> getEventsForFile (onSnapshotUpdated clock ss models uri h) uri = getEventsForFile h uri
      | Some previous \<Rightarrow>
          (\<exists>evs. recordedEvents (onSnapshotUpdated clock ss models uri h) = recordedEvents h @ evs
              \<and> getEventsForFile (onSnapshotUpdated clock ss models uri h) uri
                   = getEventsForFile h uri @ evs
              \<and> (\<forall>sid.
                    countEvents SymbolRemoved sid evs
                      = (if idToName previous sid \<noteq> None \<and> idToName next sid = None then 1 else 0)
                  \<and> countEvents SymbolAdded sid evs
                      = (if idToName next sid \<noteq> None \<and> idToName previous sid = None then 1 else 0)
                  \<and> countEvents SymbolChanged sid evs
                      = (if idToName previous sid \<noteq> None \<and> idToName next sid \<noteq> None
                            \<and> idToName previous sid \<noteq> idToName next sid then 1 else 0))
              \<and> (\<forall>e \<in> set evs. ev_symbolId e \<noteq> None
                    \<and> ev_snapshot e = \<lparr>ref_uri = snap_uri next, ref_version = snap_version next\<rparr>)
              \<and> (\<exists>k. \<forall>i < length evs. (ev_kind (evs ! i) = SymbolRemoved) = (i < k))))"
proof (cases "case perFile h uri of None \<Rightarrow> None | Some pf \<Rightarrow> pf_lastSnapshot pf")
  case None
  with assms show ?thesis
    by (auto simp: onSnapshotUpdated_def getEventsForFile_def Let_def split: option.splits)
next
  case (Some previous)
  then obtain pf where pf: "perFile h uri = Some pf" "pf_lastSnapshot pf = Some previous"
    by (auto split: option.splits)
  obtain evs n' where cd: "computeDiffEvents clock previous next (nextEventId h) = (evs, n')"
    by (cases "computeDiffEvents clock previous next (nextEventId h)")
  have h': "onSnapshotUpdated clock ss models uri h
              = h\<lparr>perFile := (perFile h)
                      (uri \<mapsto> pf\<lparr>pf_lastSnapshot := Some next, pf_events := pf_events pf @ evs\<rparr>),
                  nextEventId := n',
                  recordedEvents := recordedEvents h @ evs\<rparr>"
    using assms pf cd by (simp add: onSnapshotUpdated_def Let_def)
  have a: "recordedEvents (onSnapshotUpdated clock ss models uri h) = recordedEvents h @ evs"
    and b: "getEventsForFile (onSnapshotUpdated clock ss models uri h) uri = getEventsForFile h uri @ evs"
    using pf by (simp_all add: h' getEventsForFile_def)
  from a b computeDiffEvents_spec[OF cd] Some show ?thesis
    by (simp only: option.case) blast
qed


text \<open>The edit of \<open>twoFunctions\<close> that renames \<open>b\<close> to \<open>c\<close>: one removal for the id of
  \<open>b\<close>, one addition for the id of \<open>c\<close>, nothing for \<open>a\<close>.\<close>

theorem snapshot_diff_events_witness:
  "sv_documents edited ''file:///t.ts'' = Some renamedFunction
   \<and> getSnapshot (sv_structure edited) ''file:///t.ts''
       = Some (the (getSnapshot (sv_structure edited) ''file:///t.ts''))
   \<and> (case perFile (sv_history (opened twoFunctions)) ''file:///t.ts'' of
         None \<Rightarrow> None | Some pf \<Rightarrow> pf_lastSnapshot pf)
       = Some (the (getSnapshot (sv_structure (opened twoFunctions)) ''file:///t.ts''))
   \<and> countEvents SymbolRemoved ''file:///t.ts::b@2''
        (recordedEvents (onSnapshotUpdated (\<lambda>n. 1) (sv_structure edited) (sv_documents edited)
           ''file:///t.ts'' (sv_history (opened twoFunctions)))) = 1
   \<and> countEvents SymbolAdded ''file:///t.ts::c@2''
        (recordedEvents (onSnapshotUpdated (\<lambda>n. 1) (sv_structure edited) (sv_documents edited)
           ''file:///t.ts'' (sv_history (opened twoFunctions)))) = 1
   \<and> countEvents SymbolChanged ''file:///t.ts::a@1''
        (recordedEvents (onSnapshotUpdated (\<lambda>n. 1) (sv_structure edited) (sv_documents edited)
           ''file:///t.ts'' (sv_history (opened twoFunctions)))) = 0
   \<and> countEvents SymbolRemoved ''file:///t.ts::a@1''
        (recordedEvents (onSnapshotUpdated (\<lambda>n. 1) (sv_structure edited) (sv_documents edited)
           ''file:///t.ts'' (sv_history (opened twoFunctions)))) = 0"
proof -
  let ?next = "the (getSnapshot (sv_structure edited) ''file:///t.ts'')"
  let ?prev = "the (getSnapshot (sv_structure (opened twoFunctions)) ''file:///t.ts'')"
  let ?h = "sv_history (opened twoFunctions)"
  let ?h' = "onSnapshotUpdated (\<lambda>n. 1) (sv_structure edited) (sv_documents edited)
               ''file:///t.ts'' ?h"
  have a: "sv_documents edited ''file:///t.ts'' = Some renamedFunction"
    by code_simp
  have b: "getSnapshot (sv_structure edited) ''file:///t.ts'' = Some ?next"
    by code_simp
  have c: "(case perFile ?h ''file:///t.ts'' of None \<Rightarrow> None | Some pf \<Rightarrow> pf_lastSnapshot pf)
             = Some ?prev"
    by code_simp
  have r: "recordedEvents ?h = []"
    by code_simp
  have p: "idToName ?prev ''file:///t.ts::b@2'' \<noteq> None" "idToName ?prev ''file:///t.ts::c@2'' = None"
          "idToName ?prev ''file:///t.ts::a@1'' = Some ''a''"
    by code_simp+
  have n: "idToName ?next ''file:///t.ts::b@2'' = None" "idToName ?next ''file:///t.ts::c@2'' \<noteq> None"
          "idToName ?next ''file:///t.ts::a@1'' = Some ''a''"
    by code_simp+
  from snapshot_diff_events [where models = "sv_documents edited" and uri = "''file:///t.ts''"
      and ss = "sv_structure edited" and h = ?h and clock = "\<lambda>n. 1", OF a b]
  obtain evs where e: "recordedEvents ?h' = recordedEvents ?h @ evs"
    and k: "\<And>sid. countEvents SymbolRemoved sid evs
                      = (if idToName ?prev sid \<noteq> None \<and> idToName ?next sid = None then 1 else 0)
                  \<and> countEvents SymbolAdded sid evs
                      = (if idToName ?next sid \<noteq> None \<and> idToName ?prev sid = None then 1 else 0)
                  \<and> countEvents SymbolChanged sid evs
                      = (if idToName ?prev sid \<noteq> None \<and> idToName ?next sid \<noteq> None
                            \<and> idToName ?prev sid \<noteq> idToName ?next sid then 1 else 0)"
    unfolding c option.case by blast
  from e r have evs: "evs = recordedEvents ?h'" by simp
  from k[of "''file:///t.ts::b@2''"] k[of "''file:///t.ts::c@2''"] k[of "''file:///t.ts::a@1''"]
       p n a b c
  show ?thesis unfolding evs by simp
qed



section \<open>Call-graph builder: the edges computed\<close>

lemma addTargets_inv:
  "scanInv ids acc \<Longrightarrow> sym_id f \<in> ids \<Longrightarrow> sym_id ` set cands \<subseteq> ids \<Longrightarrow>
   scanInv ids (addTargets f cands acc)"
proof (induction cands arbitrary: acc)
  case Nil
  then show ?case by simp
next
  case (Cons t cands)
  let ?key = "edgeKey (sym_id f) (sym_id t)"
  let ?acc' = "\<lparr>scan_edges = scan_edges acc
                   @ [\<lparr>edge_ref = scan_next acc, edge_from = sym_id f,
                        edge_to = sym_id t, edge_kind = Call\<rparr>],
                scan_seen = insert ?key (scan_seen acc),
                scan_next = scan_next acc + 1\<rparr>"
  from Cons.prems(3) have t: "sym_id t \<in> ids" and rest: "sym_id ` set cands \<subseteq> ids" by auto
  have inv': "scanInv ids ?acc'"
    using Cons.prems(1,2) t by (auto simp: scanInv_def)
  show ?case
  proof (cases "?key \<in> scan_seen acc")
    case True
    then show ?thesis using Cons.IH[OF Cons.prems(1,2) rest] by (simp add: Let_def)
  next
    case False
    then show ?thesis using Cons.IH[OF inv' Cons.prems(2) rest] by (simp add: Let_def)
  qed
qed

lemma addTargets_mono: "scan_seen acc \<subseteq> scan_seen (addTargets f cands acc)"
proof (induction cands arbitrary: acc)
  case Nil
  then show ?case by simp
next
  case (Cons t cands)
  show ?case
    using Cons.IH[of acc]
      Cons.IH[of "\<lparr>scan_edges = scan_edges acc
                   @ [\<lparr>edge_ref = scan_next acc, edge_from = sym_id f,
                        edge_to = sym_id t, edge_kind = Call\<rparr>],
                scan_seen = insert (edgeKey (sym_id f) (sym_id t)) (scan_seen acc),
                scan_next = scan_next acc + 1\<rparr>"]
    by (auto simp: Let_def)
qed

lemma addTargets_seen:
  "t \<in> set cands \<Longrightarrow> edgeKey (sym_id f) (sym_id t) \<in> scan_seen (addTargets f cands acc)"
proof (induction cands arbitrary: acc)
  case Nil
  then show ?case by simp
next
  case (Cons c cands)
  let ?acc' = "\<lparr>scan_edges = scan_edges acc
                   @ [\<lparr>edge_ref = scan_next acc, edge_from = sym_id f,
                        edge_to = sym_id c, edge_kind = Call\<rparr>],
                scan_seen = insert (edgeKey (sym_id f) (sym_id c)) (scan_seen acc),
                scan_next = scan_next acc + 1\<rparr>"
  show ?case
  proof (cases "t = c")
    case True
    show ?thesis
    proof (cases "edgeKey (sym_id f) (sym_id c) \<in> scan_seen acc")
      case True
      with \<open>t = c\<close> addTargets_mono[of acc f cands] show ?thesis by (auto simp: Let_def)
    next
      case False
      with \<open>t = c\<close> addTargets_mono[of ?acc' f cands] show ?thesis by (auto simp: Let_def)
    qed
  next
    case False
    with Cons.prems have "t \<in> set cands" by simp
    from Cons.IH[OF this, of acc] Cons.IH[OF this, of ?acc'] show ?thesis by (simp add: Let_def)
  qed
qed

lemma findContainingSymbol_mem:
  "findContainingSymbol symbols p = Some s \<Longrightarrow> s \<in> set symbols"
  by (induction symbols) (auto simp: Let_def split: if_splits)

lemma scanMatches_Cons:
  "scanMatches symbols fileSym t cands (off # offs) acc =
     (case resolveFrom symbols fileSym t off of
        None \<Rightarrow> scanMatches symbols fileSym t cands offs acc
      | Some f \<Rightarrow> scanMatches symbols fileSym t cands offs (addTargets f cands acc))"
  by (simp add: resolveFrom_def Let_def)

lemma resolveFrom_mem:
  "\<forall>f. fileSym = Some f \<longrightarrow> f \<in> set symbols \<Longrightarrow> resolveFrom symbols fileSym t off = Some s \<Longrightarrow>
   s \<in> set symbols"
  by (auto simp: resolveFrom_def findContainingSymbol_mem split: option.splits)

lemma scanMatches_inv:
  "scanInv (sym_id ` set symbols) acc \<Longrightarrow> \<forall>f. fileSym = Some f \<longrightarrow> f \<in> set symbols \<Longrightarrow>
   set cands \<subseteq> set symbols \<Longrightarrow>
   scanInv (sym_id ` set symbols) (scanMatches symbols fileSym t cands offs acc)"
proof (induction offs arbitrary: acc)
  case Nil
  then show ?case by simp
next
  case (Cons off offs)
  show ?case
  proof (cases "resolveFrom symbols fileSym t off")
    case None
    then show ?thesis using Cons by (simp only: scanMatches_Cons option.case)
  next
    case (Some f)
    then have "f \<in> set symbols" using Cons.prems(2) resolveFrom_mem by blast
    then have "scanInv (sym_id ` set symbols) (addTargets f cands acc)"
      using Cons.prems by (intro addTargets_inv) auto
    from Cons.IH[OF this Cons.prems(2,3)] Some show ?thesis
      by (simp only: scanMatches_Cons option.case)
  qed
qed

lemma scanMatches_mono: "scan_seen acc \<subseteq> scan_seen (scanMatches symbols fileSym t cands offs acc)"
proof (induction offs arbitrary: acc)
  case Nil
  then show ?case by simp
next
  case (Cons off offs)
  show ?case
  proof (cases "resolveFrom symbols fileSym t off")
    case None
    then show ?thesis using Cons.IH[of acc] by (simp only: scanMatches_Cons option.case)
  next
    case (Some f)
    then show ?thesis
      using Cons.IH[of "addTargets f cands acc"] addTargets_mono[of acc f cands]
      by (simp only: scanMatches_Cons option.case)
  qed
qed

lemma scanMatches_seen:
  "off \<in> set offs \<Longrightarrow> resolveFrom symbols fileSym t off = Some f \<Longrightarrow> c \<in> set cands \<Longrightarrow>
   edgeKey (sym_id f) (sym_id c) \<in> scan_seen (scanMatches symbols fileSym t cands offs acc)"
proof (induction offs arbitrary: acc)
  case Nil
  then show ?case by simp
next
  case (Cons o1 offs)
  show ?case
  proof (cases "off = o1")
    case True
    with Cons.prems(2) have r: "resolveFrom symbols fileSym t o1 = Some f" by simp
    have "edgeKey (sym_id f) (sym_id c) \<in> scan_seen (addTargets f cands acc)"
      using Cons.prems(3) by (rule addTargets_seen)
    with scanMatches_mono[of "addTargets f cands acc" symbols fileSym t cands offs] r
    show ?thesis by (simp only: scanMatches_Cons option.case) blast
  next
    case False
    with Cons.prems(1) have m: "off \<in> set offs" by simp
    show ?thesis
    proof (cases "resolveFrom symbols fileSym t o1")
      case None
      then show ?thesis using Cons.IH[OF m Cons.prems(2,3), of acc]
        by (simp only: scanMatches_Cons option.case)
    next
      case (Some g)
      then show ?thesis using Cons.IH[OF m Cons.prems(2,3), of "addTargets g cands acc"]
        by (simp only: scanMatches_Cons option.case)
    qed
  qed
qed

lemma scanNames_inv:
  "scanInv (sym_id ` set symbols) acc \<Longrightarrow> \<forall>f. fileSym = Some f \<longrightarrow> f \<in> set symbols \<Longrightarrow>
   \<forall>(name, cands) \<in> set groups. set cands \<subseteq> set symbols \<Longrightarrow>
   scanInv (sym_id ` set symbols) (scanNames symbols fileSym t groups acc)"
proof (induction groups arbitrary: acc)
  case Nil
  then show ?case by simp
next
  case (Cons g groups)
  obtain name cands where g: "g = (name, cands)" by (cases g)
  from Cons.prems(3) g have c: "set cands \<subseteq> set symbols"
    and rest: "\<forall>(name, cands) \<in> set groups. set cands \<subseteq> set symbols" by auto
  from scanMatches_inv[OF Cons.prems(1,2) c]
  have "scanInv (sym_id ` set symbols)
          (scanMatches symbols fileSym t cands (execAll name None 0 0 t) acc)" .
  from Cons.IH[OF this Cons.prems(2) rest] show ?case by (simp add: g)
qed

lemma scanNames_mono: "scan_seen acc \<subseteq> scan_seen (scanNames symbols fileSym t groups acc)"
proof (induction groups arbitrary: acc)
  case Nil
  then show ?case by simp
next
  case (Cons g groups)
  obtain name cands where g: "g = (name, cands)" by (cases g)
  show ?case
    using Cons.IH[of "scanMatches symbols fileSym t cands (execAll name None 0 0 t) acc"]
      scanMatches_mono[of acc symbols fileSym t cands "execAll name None 0 0 t"]
    by (simp add: g)
qed

lemma scanNames_seen:
  "(name, cands) \<in> set groups \<Longrightarrow> off \<in> set (execAll name None 0 0 t) \<Longrightarrow>
   resolveFrom symbols fileSym t off = Some f \<Longrightarrow> c \<in> set cands \<Longrightarrow>
   edgeKey (sym_id f) (sym_id c) \<in> scan_seen (scanNames symbols fileSym t groups acc)"
proof (induction groups arbitrary: acc)
  case Nil
  then show ?case by simp
next
  case (Cons g groups)
  obtain n1 c1 where g: "g = (n1, c1)" by (cases g)
  show ?case
  proof (cases "(name, cands) = g")
    case True
    with g have e: "n1 = name" "c1 = cands" by auto
    have "edgeKey (sym_id f) (sym_id c)
            \<in> scan_seen (scanMatches symbols fileSym t cands (execAll name None 0 0 t) acc)"
      using Cons.prems(2,3,4) by (rule scanMatches_seen)
    with scanNames_mono[of "scanMatches symbols fileSym t cands (execAll name None 0 0 t) acc"
        symbols fileSym t groups]
    show ?thesis by (simp add: g e) blast
  next
    case False
    with Cons.prems(1) have "(name, cands) \<in> set groups" by auto
    from Cons.IH[OF this Cons.prems(2,3,4)] show ?thesis by (simp add: g)
  qed
qed


lemma mapSet_mem: "(n, c) \<in> set (mapSet k v m) \<Longrightarrow> (n, c) = (k, v) \<or> (n, c) \<in> set m"
  by (induction m) (auto split: if_splits)

lemma groupByName_subset:
  "\<forall>(n, c) \<in> set m. set c \<subseteq> S \<Longrightarrow> set symbols \<subseteq> S \<Longrightarrow>
   \<forall>(n, c) \<in> set (groupByName symbols m). set c \<subseteq> S"
proof (induction symbols arbitrary: m)
  case Nil
  then show ?case by simp
next
  case (Cons s symbols)
  let ?lst = "case mapGet m (sym_name s) of None \<Rightarrow> [] | Some l \<Rightarrow> l"
  have lst: "set ?lst \<subseteq> S"
  proof (cases "mapGet m (sym_name s)")
    case None
    then show ?thesis by simp
  next
    case (Some l)
    then have "(sym_name s, l) \<in> set m" by (simp add: mapGet_def map_of_SomeD)
    with Cons.prems(1) Some show ?thesis by auto
  qed
  have m': "\<forall>(n, c) \<in> set (mapSet (sym_name s) (?lst @ [s]) m). set c \<subseteq> S"
  proof (clarify)
    fix n c x
    assume "(n, c) \<in> set (mapSet (sym_name s) (?lst @ [s]) m)" and x: "x \<in> set c"
    from mapSet_mem[OF this(1)] have "c = ?lst @ [s] \<or> (n, c) \<in> set m" by auto
    then show "x \<in> S"
    proof
      assume "c = ?lst @ [s]"
      with x lst Cons.prems(2) show ?thesis by auto
    next
      assume "(n, c) \<in> set m"
      with x Cons.prems(1) show ?thesis by auto
    qed
  qed
  from Cons.prems(2) have rest: "set symbols \<subseteq> S" by simp
  show ?case
    using Cons.IH[OF m' rest] Cons.IH[OF Cons.prems(1) rest]
    by (simp add: Let_def)
qed

lemma grouped_mapSet:
  "grouped m s \<Longrightarrow>
   grouped (mapSet (sym_name x) ((case mapGet m (sym_name x) of None \<Rightarrow> [] | Some l \<Rightarrow> l) @ [x]) m) s"
proof -
  assume "grouped m s"
  then obtain c where c: "map_of m (sym_name s) = Some c" "s \<in> set c"
    by (auto simp: grouped_def)
  show ?thesis
  proof (cases "sym_name s = sym_name x")
    case True
    with c show ?thesis by (simp add: grouped_def map_of_mapSet mapGet_def)
  next
    case False
    with c show ?thesis by (simp add: grouped_def map_of_mapSet)
  qed
qed

lemma in_snoc: "x \<in> set (ys @ [x])"
  by simp

lemma grouped_mapSet_new:
  "grouped (mapSet (sym_name x) ((case mapGet m (sym_name x) of None \<Rightarrow> [] | Some l \<Rightarrow> l) @ [x]) m) x"
proof -
  let ?v = "(case mapGet m (sym_name x) of None \<Rightarrow> [] | Some l \<Rightarrow> l) @ [x]"
  have "map_of (mapSet (sym_name x) ?v m) (sym_name x) = Some ?v"
    by (simp add: map_of_mapSet)
  moreover have "x \<in> set ?v" by (rule in_snoc)
  ultimately show ?thesis unfolding grouped_def by blast
qed

lemma groupByName_keeps: "grouped m s \<Longrightarrow> grouped (groupByName symbols m) s"
proof (induction symbols arbitrary: m)
  case Nil
  then show ?case by simp
next
  case (Cons x symbols)
  show ?case
    using Cons.IH[OF Cons.prems] Cons.IH[OF grouped_mapSet[OF Cons.prems, of x]]
    by (simp add: Let_def)
qed

lemma groupByName_grouped:
  "s \<in> set symbols \<Longrightarrow> sym_kind s = Function \<or> sym_kind s = Method \<Longrightarrow>
   grouped (groupByName symbols m) s"
proof (induction symbols arbitrary: m)
  case Nil
  then show ?case by simp
next
  case (Cons x symbols)
  show ?case
  proof (cases "s = x")
    case True
    with Cons.prems(2) groupByName_keeps[OF grouped_mapSet_new[of x m], of symbols]
    show ?thesis by (simp add: Let_def)
  next
    case False
    with Cons.prems(1) have "s \<in> set symbols" by simp
    from Cons.IH[OF this Cons.prems(2)] show ?thesis by (simp add: Let_def)
  qed
qed

lemma computeIntraFileCallEdges_live:
  "getValue m = Inr t \<Longrightarrow>
   computeIntraFileCallEdges snap m nxt =
     Inr (scan_edges (scanNames (snap_symbols snap) (find (\<lambda>s. sym_kind s = File) (snap_symbols snap)) t
                        (groupByName (snap_symbols snap) [])
                        \<lparr>scan_edges = [], scan_seen = {}, scan_next = nxt\<rparr>),
          scan_next (scanNames (snap_symbols snap) (find (\<lambda>s. sym_kind s = File) (snap_symbols snap)) t
                        (groupByName (snap_symbols snap) [])
                        \<lparr>scan_edges = [], scan_seen = {}, scan_next = nxt\<rparr>))"
  by (simp add: computeIntraFileCallEdges_def Let_def)

text \<open>
  C10, amended. A Function or Method symbol gets a self-edge (a Call edge from its id to
  its id) whenever the call pattern of its name matches at an offset whose position
  \<open>findContainingSymbol\<close> resolves to the symbol itself, provided no other pair of ids of
  the snapshot has the dedup key of the self-edge. Nothing is said of a symbol whose
  declaration does not match the call pattern inside its own range.
\<close>

theorem self_edge_when_occurrence_in_own_range:
  assumes live: "getValue m = Inr t"
    and mem: "s \<in> set (snap_symbols snap)"
    and kind: "sym_kind s = Function \<or> sym_kind s = Method"
    and occ: "off \<in> set (execAll (sym_name s) None 0 0 t)"
    and own: "findContainingSymbol (snap_symbols snap) (getPositionAt t off) = Some s"
    and keys: "selfKeyUnique (snap_symbols snap) s"
    and res: "computeIntraFileCallEdges snap m nxt = Inr (edges, nxt')"
  shows "\<exists>e \<in> set edges. edge_from e = sym_id s \<and> edge_to e = sym_id s \<and> edge_kind e = Call"
proof -
  let ?symbols = "snap_symbols snap"
  let ?fileSym = "find (\<lambda>s. sym_kind s = File) ?symbols"
  let ?groups = "groupByName ?symbols []"
  let ?start = "\<lparr>scan_edges = [], scan_seen = {}, scan_next = nxt\<rparr>"
  let ?acc = "scanNames ?symbols ?fileSym t ?groups ?start"
  from res computeIntraFileCallEdges_live[OF live, of snap nxt]
  have edges: "edges = scan_edges ?acc" by simp
  have fs: "\<forall>f. ?fileSym = Some f \<longrightarrow> f \<in> set ?symbols"
    by (auto simp: find_Some_iff)
  have gs: "\<forall>(n, c) \<in> set ?groups. set c \<subseteq> set ?symbols"
    by (rule groupByName_subset) simp_all
  have inv0: "scanInv (sym_id ` set ?symbols) ?start"
    by (simp add: scanInv_def)
  have inv: "scanInv (sym_id ` set ?symbols) ?acc"
    by (rule scanNames_inv[OF inv0 fs gs])
  from groupByName_grouped[OF mem kind, of "[]"]
  obtain cands where c: "map_of ?groups (sym_name s) = Some cands" "s \<in> set cands"
    by (auto simp: grouped_def)
  then have g: "(sym_name s, cands) \<in> set ?groups" by (simp add: map_of_SomeD)
  have r: "resolveFrom ?symbols ?fileSym t off = Some s"
    using own by (simp add: resolveFrom_def)
  have "edgeKey (sym_id s) (sym_id s) \<in> scan_seen ?acc"
    by (rule scanNames_seen[OF g occ r c(2)])
  with inv obtain e where e: "e \<in> set (scan_edges ?acc)"
    "edgeKey (edge_from e) (edge_to e) = edgeKey (sym_id s) (sym_id s)"
    by (auto simp: scanInv_def)
  from inv e(1) have k: "edge_kind e = Call" and "edge_from e \<in> sym_id ` set ?symbols"
    and "edge_to e \<in> sym_id ` set ?symbols"
    by (auto simp: scanInv_def)
  then obtain f c where "f \<in> set ?symbols" "c \<in> set ?symbols"
    "edge_from e = sym_id f" "edge_to e = sym_id c" by auto
  with keys e(2) have "edge_from e = sym_id s \<and> edge_to e = sym_id s"
    unfolding selfKeyUnique_def by metis
  with e(1) k edges show ?thesis by blast
qed


text \<open>The function \<open>a\<close> of \<open>twoFunctions\<close>: its declaration \<open>a(\<close> at offset 9 lies in its
  own range.\<close>

theorem self_edge_when_occurrence_in_own_range_witness:
  "getValue twoFunctions = Inr (model_value twoFunctions)
   \<and> snap_symbols (the (getSnapshot (sv_structure (opened twoFunctions)) ''file:///t.ts'')) ! 1
       \<in> set (snap_symbols (the (getSnapshot (sv_structure (opened twoFunctions)) ''file:///t.ts'')))
   \<and> sym_kind (snap_symbols (the (getSnapshot (sv_structure (opened twoFunctions)) ''file:///t.ts'')) ! 1)
       = Function
   \<and> sym_id (snap_symbols (the (getSnapshot (sv_structure (opened twoFunctions)) ''file:///t.ts'')) ! 1)
       = ''file:///t.ts::a@1''
   \<and> 9 \<in> set (execAll ''a'' None 0 0 (model_value twoFunctions))
   \<and> findContainingSymbol
        (snap_symbols (the (getSnapshot (sv_structure (opened twoFunctions)) ''file:///t.ts'')))
        (getPositionAt (model_value twoFunctions) 9)
       = Some (snap_symbols (the (getSnapshot (sv_structure (opened twoFunctions)) ''file:///t.ts'')) ! 1)
   \<and> selfKeyUnique
        (snap_symbols (the (getSnapshot (sv_structure (opened twoFunctions)) ''file:///t.ts'')))
        (snap_symbols (the (getSnapshot (sv_structure (opened twoFunctions)) ''file:///t.ts'')) ! 1)
   \<and> (\<exists>edges n.
         computeIntraFileCallEdges
           (the (getSnapshot (sv_structure (opened twoFunctions)) ''file:///t.ts'')) twoFunctions 0
           = Inr (edges, n)
         \<and> (\<exists>e \<in> set edges. edge_from e = ''file:///t.ts::a@1'' \<and> edge_to e = ''file:///t.ts::a@1''
               \<and> edge_kind e = Call))"
proof -
  let ?snap = "the (getSnapshot (sv_structure (opened twoFunctions)) ''file:///t.ts'')"
  let ?s = "snap_symbols ?snap ! 1"
  have live: "getValue twoFunctions = Inr (model_value twoFunctions)"
    by (simp add: getValue_def twoFunctions_def liveModel_def)
  have mem: "?s \<in> set (snap_symbols ?snap)" by code_simp
  have kind: "sym_kind ?s = Function" by code_simp
  have nm: "sym_name ?s = ''a''" by code_simp
  have sid: "sym_id ?s = ''file:///t.ts::a@1''" by code_simp
  have occ: "9 \<in> set (execAll ''a'' None 0 0 (model_value twoFunctions))" by code_simp
  have own: "findContainingSymbol (snap_symbols ?snap) (getPositionAt (model_value twoFunctions) 9)
               = Some ?s" by code_simp
  have keys: "selfKeyUnique (snap_symbols ?snap) ?s" by code_simp
  note res = computeIntraFileCallEdges_live [OF live, of ?snap 0]
  have kind': "sym_kind ?s = Function \<or> sym_kind ?s = Method" using kind by simp
  from self_edge_when_occurrence_in_own_range [OF live mem kind' occ[folded nm] own keys res] res
  have "\<exists>edges n. computeIntraFileCallEdges ?snap twoFunctions 0 = Inr (edges, n)
         \<and> (\<exists>e \<in> set edges. edge_from e = ''file:///t.ts::a@1'' \<and> edge_to e = ''file:///t.ts::a@1''
               \<and> edge_kind e = Call)"
    unfolding sid by blast
  with live mem kind sid occ own keys show ?thesis by blast
qed

text \<open>
  C10, as stated, fails. In \<open>function id<T>(x: T) { return x; }\<close> the declared name is
  followed by \<open><\<close>: the indexer emits the Function symbol \<open>id\<close>, the call pattern
  \<open>id(\<close> occurs nowhere, and the completed graph pass yields no edge at all.
\<close>

theorem self_edge_counterexample:
  "(case buildSnapshot 0 genericFunction of
      Inl e \<Rightarrow> []
    | Inr snap \<Rightarrow> map (\<lambda>s. (sym_kind s, sym_name s, sym_id s)) (snap_symbols snap))
     = [(File, ''g.ts'', ''file:///g.ts::<file>@1''), (Function, ''id'', ''file:///g.ts::id@1'')]
   \<and> map fst (graphUpdates (sv_graph (opened genericFunction))) = [''file:///g.ts'']
   \<and> getEdgesForFile (sv_graph (opened genericFunction)) ''file:///g.ts'' = []
   \<and> getCallers (sv_graph (opened genericFunction)) ''file:///g.ts::id@1'' = []
   \<and> getCallees (sv_graph (opened genericFunction)) ''file:///g.ts::id@1'' = []"
  by code_simp

section \<open>The call graph of the two-function document\<close>

lemma twoFunctions_symbols:
  "map (\<lambda>s. (sym_kind s, sym_name s, sym_id s, startLineNumber (sym_range s), startColumn (sym_range s),
              endLineNumber (sym_range s), endColumn (sym_range s)))
     (snap_symbols (the (getSnapshot (sv_structure (opened twoFunctions)) ''file:///t.ts'')))
   = [(File, ''t.ts'', ''file:///t.ts::<file>@1'', 1, 1, 2, 15),
      (Function, ''a'', ''file:///t.ts::a@1'', 1, 10, 1, 11),
      (Function, ''b'', ''file:///t.ts::b@2'', 2, 10, 2, 11)]"
  by code_simp

lemma twoFunctions_edges:
  "map (\<lambda>e. (edge_from e, edge_to e, edge_kind e))
     (getEdgesForFile (sv_graph (opened twoFunctions)) ''file:///t.ts'')
   = [(''file:///t.ts::a@1'', ''file:///t.ts::a@1'', Call),
      (''file:///t.ts::<file>@1'', ''file:///t.ts::b@2'', Call),
      (''file:///t.ts::b@2'', ''file:///t.ts::b@2'', Call)]"
  by code_simp

lemma twoFunctions_callers_b:
  "map (\<lambda>e. (edge_from e, edge_to e, edge_kind e))
     (getCallers (sv_graph (opened twoFunctions)) ''file:///t.ts::b@2'')
   = [(''file:///t.ts::<file>@1'', ''file:///t.ts::b@2'', Call),
      (''file:///t.ts::b@2'', ''file:///t.ts::b@2'', Call)]"
  by code_simp

lemma twoFunctions_call_site:
  "execAll ''b'' None 0 0 (model_value twoFunctions) = [14, 30]
   \<and> getPositionAt (model_value twoFunctions) 14 = \<lparr>lineNumber = 1, column = 15\<rparr>
   \<and> findContainingSymbol
        (snap_symbols (the (getSnapshot (sv_structure (opened twoFunctions)) ''file:///t.ts'')))
        \<lparr>lineNumber = 1, column = 15\<rparr> = None"
  by code_simp

text \<open>
  C1, as stated, fails. After the graph pass over the indexer's snapshot of
  \<open>"function a(){ b(); }\nfunction b(){}"\<close> the edge set holds no edge from the id of \<open>a\<close>
  to the id of \<open>b\<close>, and \<open>getCallers\<close> of the id of \<open>b\<close> returns two edges, none of them
  from \<open>a\<close>.
\<close>

theorem call_edge_a_to_b_counterexample:
  "(''file:///t.ts::a@1'', ''file:///t.ts::b@2'')
      \<notin> set (map (\<lambda>e. (edge_from e, edge_to e))
                (getEdgesForFile (sv_graph (opened twoFunctions)) ''file:///t.ts''))
   \<and> length (getCallers (sv_graph (opened twoFunctions)) ''file:///t.ts::b@2'') = 2
   \<and> ''file:///t.ts::a@1''
        \<notin> set (map edge_from (getCallers (sv_graph (opened twoFunctions)) ''file:///t.ts::b@2''))"
proof -
  have e: "map (\<lambda>e. (edge_from e, edge_to e))
             (getEdgesForFile (sv_graph (opened twoFunctions)) ''file:///t.ts'')
           = map (\<lambda>(f, t, k). (f, t)) (map (\<lambda>e. (edge_from e, edge_to e, edge_kind e))
               (getEdgesForFile (sv_graph (opened twoFunctions)) ''file:///t.ts''))"
    by simp
  have c: "map edge_from (getCallers (sv_graph (opened twoFunctions)) ''file:///t.ts::b@2'')
           = map fst (map (\<lambda>e. (edge_from e, edge_to e, edge_kind e))
               (getCallers (sv_graph (opened twoFunctions)) ''file:///t.ts::b@2''))"
    by simp
  have l: "length (getCallers (sv_graph (opened twoFunctions)) ''file:///t.ts::b@2'')
           = length (map (\<lambda>e. (edge_from e, edge_to e, edge_kind e))
               (getCallers (sv_graph (opened twoFunctions)) ''file:///t.ts::b@2''))"
    by simp
  show ?thesis
    unfolding e c l twoFunctions_edges twoFunctions_callers_b by simp
qed

text \<open>
  C1, amended. The ranges of \<open>a\<close> and \<open>b\<close> are the spans of their names, (1,10)-(1,11)
  and (2,10)-(2,11). The call \<open>b(\<close> at offset 14 is at position (1,15), inside no
  non-File range, so its source falls back to the File symbol. The edge set is: the
  self-edge of \<open>a\<close>, a Call edge from the File symbol to \<open>b\<close>, and the self-edge of \<open>b\<close>;
  \<open>getCallers\<close> of the id of \<open>b\<close> returns exactly the last two.
\<close>

theorem call_edge_file_to_b:
  "map (\<lambda>s. (sym_kind s, sym_name s, sym_id s, startLineNumber (sym_range s), startColumn (sym_range s),
              endLineNumber (sym_range s), endColumn (sym_range s)))
     (snap_symbols (the (getSnapshot (sv_structure (opened twoFunctions)) ''file:///t.ts'')))
   = [(File, ''t.ts'', ''file:///t.ts::<file>@1'', 1, 1, 2, 15),
      (Function, ''a'', ''file:///t.ts::a@1'', 1, 10, 1, 11),
      (Function, ''b'', ''file:///t.ts::b@2'', 2, 10, 2, 11)]
   \<and> getPositionAt (model_value twoFunctions) 14 = \<lparr>lineNumber = 1, column = 15\<rparr>
   \<and> findContainingSymbol
        (snap_symbols (the (getSnapshot (sv_structure (opened twoFunctions)) ''file:///t.ts'')))
        \<lparr>lineNumber = 1, column = 15\<rparr> = None
   \<and> map (\<lambda>e. (edge_from e, edge_to e, edge_kind e))
        (getEdgesForFile (sv_graph (opened twoFunctions)) ''file:///t.ts'')
      = [(''file:///t.ts::a@1'', ''file:///t.ts::a@1'', Call),
         (''file:///t.ts::<file>@1'', ''file:///t.ts::b@2'', Call),
         (''file:///t.ts::b@2'', ''file:///t.ts::b@2'', Call)]
   \<and> map (\<lambda>e. (edge_from e, edge_to e, edge_kind e))
        (getCallers (sv_graph (opened twoFunctions)) ''file:///t.ts::b@2'')
      = [(''file:///t.ts::<file>@1'', ''file:///t.ts::b@2'', Call),
         (''file:///t.ts::b@2'', ''file:///t.ts::b@2'', Call)]"
  using twoFunctions_symbols twoFunctions_edges twoFunctions_callers_b twoFunctions_call_site
  by simp



section \<open>Removal of a document\<close>

text \<open>
  C8, amended. When a tracked document is removed, the indexer drops the file's snapshot
  and its scheduler: the scheduler is disposed, which cancels a pending run, and leaves
  the map. The snapshots of other files stay. The call-graph builder has no handler for
  the removal: its state, and so the file's edges in \<open>getEdgesForFile\<close>, \<open>getCallers\<close> and
  \<open>getCallees\<close>, stays as it is. The history recorder clears only the remembered last
  snapshot of the file; the recorded events of every file are retained.
\<close>

theorem document_removed_effects:
  "snapshots (sv_structure (documentRemoved m sv)) (model_uri m) = None
   \<and> recomputeSchedulers (sv_structure (documentRemoved m sv)) (model_uri m) = None
   \<and> (\<forall>r s. recomputeSchedulers (sv_structure sv) (model_uri m) = Some r
              \<and> schedulerHeap (sv_structure sv) r = Some s
           \<longrightarrow> schedulerHeap (sv_structure (documentRemoved m sv)) r
                 = Some \<lparr>sch_pending = False, sch_disposed = True\<rparr>)
   \<and> (\<forall>u. u \<noteq> model_uri m
           \<longrightarrow> snapshots (sv_structure (documentRemoved m sv)) u = snapshots (sv_structure sv) u)
   \<and> sv_graph (documentRemoved m sv) = sv_graph sv
   \<and> (\<forall>u. getEventsForFile (sv_history (documentRemoved m sv)) u = getEventsForFile (sv_history sv) u)
   \<and> (\<forall>pf. perFile (sv_history sv) (model_uri m) = Some pf
           \<longrightarrow> perFile (sv_history (documentRemoved m sv)) (model_uri m)
                 = Some (pf\<lparr>pf_lastSnapshot := None\<rparr>))
   \<and> recordedEvents (sv_history (documentRemoved m sv)) = recordedEvents (sv_history sv)"
  by (auto simp: documentRemoved_def onWillDispose_def onModelRemoved_structure_def
        onModelRemoved_history_def getEventsForFile_def dispose_def Let_def
      split: option.splits)

text \<open>
  C8, as stated, fails. After \<open>twoFunctions\<close> was indexed and then removed, the call-graph
  builder still returns the file's three edges, and the callers and callees of its
  symbols.
\<close>

theorem document_removed_graph_counterexample:
  "map (\<lambda>e. (edge_from e, edge_to e, edge_kind e))
     (getEdgesForFile (sv_graph (documentRemoved twoFunctions (opened twoFunctions))) ''file:///t.ts'')
   = [(''file:///t.ts::a@1'', ''file:///t.ts::a@1'', Call),
      (''file:///t.ts::<file>@1'', ''file:///t.ts::b@2'', Call),
      (''file:///t.ts::b@2'', ''file:///t.ts::b@2'', Call)]
   \<and> length (getCallers (sv_graph (documentRemoved twoFunctions (opened twoFunctions)))
        ''file:///t.ts::b@2'') = 2
   \<and> length (getCallees (sv_graph (documentRemoved twoFunctions (opened twoFunctions)))
        ''file:///t.ts::a@1'') = 1"
  by code_simp

text \<open>Removal while a recomputation is pending after an edit.\<close>

theorem document_removed_effects_witness:
  "recomputeSchedulers (sv_structure pendingEdit) (model_uri renamedFunction) = Some 0
   \<and> schedulerHeap (sv_structure pendingEdit) 0 = Some \<lparr>sch_pending = True, sch_disposed = False\<rparr>
   \<and> snapshots (sv_structure pendingEdit) (model_uri renamedFunction) \<noteq> None
   \<and> perFile (sv_history pendingEdit) (model_uri renamedFunction) \<noteq> None
   \<and> schedulerHeap (sv_structure (documentRemoved renamedFunction pendingEdit)) 0
       = Some \<lparr>sch_pending = False, sch_disposed = True\<rparr>
   \<and> snapshots (sv_structure (documentRemoved renamedFunction pendingEdit)) (model_uri renamedFunction) = None
   \<and> sv_graph (documentRemoved renamedFunction pendingEdit) = sv_graph pendingEdit
   \<and> map_option pf_lastSnapshot
        (perFile (sv_history (documentRemoved renamedFunction pendingEdit)) (model_uri renamedFunction))
       = Some None"
proof -
  have a: "recomputeSchedulers (sv_structure pendingEdit) (model_uri renamedFunction) = Some 0"
    by code_simp
  have b: "schedulerHeap (sv_structure pendingEdit) 0 = Some \<lparr>sch_pending = True, sch_disposed = False\<rparr>"
    by code_simp
  have c: "snapshots (sv_structure pendingEdit) (model_uri renamedFunction) \<noteq> None"
    by code_simp
  have d: "perFile (sv_history pendingEdit) (model_uri renamedFunction) \<noteq> None"
    by code_simp
  then obtain pf where pf: "perFile (sv_history pendingEdit) (model_uri renamedFunction) = Some pf"
    by blast
  from document_removed_effects [of renamedFunction pendingEdit] a b c d pf
  show ?thesis by simp
qed



section \<open>Call-graph builder: replacement of a file's edges\<close>

subsection \<open>New references\<close>

lemma addTargets_refs: "scanRefs n0 acc \<Longrightarrow> scanRefs n0 (addTargets f cands acc)"
proof (induction cands arbitrary: acc)
  case Nil
  then show ?case by simp
next
  case (Cons t cands)
  let ?acc' = "\<lparr>scan_edges = scan_edges acc
                   @ [\<lparr>edge_ref = scan_next acc, edge_from = sym_id f,
                        edge_to = sym_id t, edge_kind = Call\<rparr>],
                scan_seen = insert (edgeKey (sym_id f) (sym_id t)) (scan_seen acc),
                scan_next = scan_next acc + 1\<rparr>"
  have "scanRefs n0 ?acc'"
    using Cons.prems by (fastforce simp: scanRefs_def)
  from Cons.IH[OF this] Cons.IH[OF Cons.prems] show ?case by (simp add: Let_def)
qed

lemma scanMatches_refs:
  "scanRefs n0 acc \<Longrightarrow> scanRefs n0 (scanMatches symbols fileSym t cands offs acc)"
proof (induction offs arbitrary: acc)
  case Nil
  then show ?case by simp
next
  case (Cons off offs)
  show ?case
    using Cons.IH[OF Cons.prems] Cons.IH[OF addTargets_refs[OF Cons.prems]]
    by (simp add: Let_def split: option.splits)
qed

lemma scanNames_refs:
  "scanRefs n0 acc \<Longrightarrow> scanRefs n0 (scanNames symbols fileSym t groups acc)"
proof (induction groups arbitrary: acc)
  case Nil
  then show ?case by simp
next
  case (Cons g groups)
  obtain name cands where g: "g = (name, cands)" by (cases g)
  from Cons.IH[OF scanMatches_refs[OF Cons.prems]] show ?case by (simp add: g)
qed

lemma computeIntraFileCallEdges_refs:
  assumes "computeIntraFileCallEdges snap m n = Inr (es, n')"
  shows "n \<le> n'" and "\<forall>e \<in> set es. n \<le> edge_ref e \<and> edge_ref e < n'"
    and "distinct (map edge_ref es)"
proof -
  from assms obtain t where t: "getValue m = Inr t"
    by (auto simp: computeIntraFileCallEdges_def split: sum.splits)
  let ?acc = "scanNames (snap_symbols snap) (find (\<lambda>s. sym_kind s = File) (snap_symbols snap)) t
                (groupByName (snap_symbols snap) [])
                \<lparr>scan_edges = [], scan_seen = {}, scan_next = n\<rparr>"
  from assms t have e: "es = scan_edges ?acc" "n' = scan_next ?acc"
    by (simp_all add: computeIntraFileCallEdges_def Let_def)
  have "scanRefs n \<lparr>scan_edges = [], scan_seen = {}, scan_next = n\<rparr>"
    by (simp add: scanRefs_def)
  then have "scanRefs n ?acc" by (rule scanNames_refs)
  then show "n \<le> n'" and "\<forall>e \<in> set es. n \<le> edge_ref e \<and> edge_ref e < n'"
    and "distinct (map edge_ref es)"
    unfolding e by (simp_all add: scanRefs_def)
qed

lemma computeIntraFileCallEdges_Inl:
  "computeIntraFileCallEdges snap m n = Inl e \<Longrightarrow> model_disposed m"
  by (auto simp: computeIntraFileCallEdges_def getValue_def Let_def split: sum.splits if_splits)

subsection \<open>The edge indexes\<close>

lemma lookupEdges_dropEdge:
  "lookupEdges (dropEdge k' e m) k
     = (if k = k' then filter (\<lambda>x. edge_ref x \<noteq> edge_ref e) (lookupEdges m k) else lookupEdges m k)"
  by (auto simp: lookupEdges_def dropEdge_def split: option.splits)

lemma lookupEdges_pushEdge:
  "lookupEdges (pushEdge k' e m) k
     = (if k = k' then lookupEdges m k @ [e] else lookupEdges m k)"
  by (auto simp: lookupEdges_def pushEdge_def split: option.splits)

lemma removeEdges_frame:
  "fileGraphs (removeEdges es g) = fileGraphs g"
  "nextEdgeRef (removeEdges es g) = nextEdgeRef g"
  "graphUpdates (removeEdges es g) = graphUpdates g"
  "graphLog (removeEdges es g) = graphLog g"
  "symbolToFile (removeEdges es g) = symbolToFile g"
  by (induction es arbitrary: g) simp_all

lemma addEdges_frame:
  "fileGraphs (addEdges es g) = fileGraphs g"
  "nextEdgeRef (addEdges es g) = nextEdgeRef g"
  "graphUpdates (addEdges es g) = graphUpdates g"
  "graphLog (addEdges es g) = graphLog g"
  "symbolToFile (addEdges es g) = symbolToFile g"
  by (induction es arbitrary: g) simp_all

lemma removeEdges_outgoing:
  "lookupEdges (outgoingEdges (removeEdges es g)) k
     = filter (\<lambda>x. \<forall>e \<in> set es. edge_from e = k \<longrightarrow> edge_ref x \<noteq> edge_ref e)
         (lookupEdges (outgoingEdges g) k)"
proof (induction es arbitrary: g)
  case Nil
  then show ?case by simp
next
  case (Cons e es)
  show ?case
    by (simp add: Cons.IH lookupEdges_dropEdge)
qed

lemma removeEdges_incoming:
  "lookupEdges (incomingEdges (removeEdges es g)) k
     = filter (\<lambda>x. \<forall>e \<in> set es. edge_to e = k \<longrightarrow> edge_ref x \<noteq> edge_ref e)
         (lookupEdges (incomingEdges g) k)"
proof (induction es arbitrary: g)
  case Nil
  then show ?case by simp
next
  case (Cons e es)
  show ?case
    by (simp add: Cons.IH lookupEdges_dropEdge)
qed

lemma addEdges_outgoing:
  "lookupEdges (outgoingEdges (addEdges es g)) k
     = lookupEdges (outgoingEdges g) k @ filter (\<lambda>e. edge_from e = k) es"
  by (induction es arbitrary: g) (simp_all add: lookupEdges_pushEdge)

lemma addEdges_incoming:
  "lookupEdges (incomingEdges (addEdges es g)) k
     = lookupEdges (incomingEdges g) k @ filter (\<lambda>e. edge_to e = k) es"
  by (induction es arbitrary: g) (simp_all add: lookupEdges_pushEdge)

lemma getCallees_lookup: "getCallees g k = lookupEdges (outgoingEdges g) k"
  by (simp add: getCallees_def lookupEdges_def)

lemma getCallers_lookup: "getCallers g k = lookupEdges (incomingEdges g) k"
  by (simp add: getCallers_def lookupEdges_def)


lemma readers_truncate:
  "getCallees (graph_view.truncate g) = getCallees g"
  "getCallers (graph_view.truncate g) = getCallers g"
  "getEdgesForFile (graph_view.truncate g) = getEdgesForFile g"
  by (simp_all add: fun_eq_iff getCallees_def getCallers_def getEdgesForFile_def
        graph_view.truncate_def)

lemma viewConsistent_truncate: "viewConsistent (graph_view.truncate g) = viewConsistent g"
  by (simp add: viewConsistent_def readers_truncate)

lemma graphInv_init: "graphInv graph_init"
  by (simp add: graphInv_def viewConsistent_def graph_init_def getCallees_def getCallers_def
      getEdgesForFile_def)

lemma graphInv_log: "graphInv g \<Longrightarrow> graphInv (g\<lparr>graphLog := l\<rparr>)"
  by (simp add: graphInv_def viewConsistent_def getCallees_def getCallers_def getEdgesForFile_def)

lemma distinct_kept_new:
  "distinct xs \<Longrightarrow> distinct ys \<Longrightarrow> (\<And>x. x \<in> set xs \<Longrightarrow> x \<in> set ys \<Longrightarrow> False) \<Longrightarrow>
   distinct (filter P xs @ filter Q ys)"
  by auto

lemma graphInv_step:
  assumes inv: "graphInv g"
    and fresh: "\<forall>e \<in> set new. nextEdgeRef g \<le> edge_ref e \<and> edge_ref e < nextEdgeRef g'"
    and dnew: "distinct (map edge_ref new)"
    and le: "nextEdgeRef g \<le> nextEdgeRef g'"
    and files: "\<And>u. getEdgesForFile g' u = (if u = uri then new else getEdgesForFile g u)"
    and out: "\<And>k. getCallees g' k
                = filter (\<lambda>x. \<forall>e \<in> set (getEdgesForFile g uri). edge_from e = k \<longrightarrow> edge_ref x \<noteq> edge_ref e)
                    (getCallees g k) @ filter (\<lambda>e. edge_from e = k) new"
    and inc: "\<And>k. getCallers g' k
                = filter (\<lambda>x. \<forall>e \<in> set (getEdgesForFile g uri). edge_to e = k \<longrightarrow> edge_ref x \<noteq> edge_ref e)
                    (getCallers g k) @ filter (\<lambda>e. edge_to e = k) new"
    and upd: "graphUpdates g' = graphUpdates g @ [(uri, graph_view.truncate g')]"
  shows "graphInv g'"
proof -
  from inv have vc: "viewConsistent g"
    and lt: "\<And>u e. e \<in> set (getEdgesForFile g u) \<Longrightarrow> edge_ref e < nextEdgeRef g"
    and dr: "\<And>u. distinct (map edge_ref (getEdgesForFile g u))"
    and dj0: "\<forall>u u'. u \<noteq> u' \<longrightarrow>
           edge_ref ` set (getEdgesForFile g u) \<inter> edge_ref ` set (getEdgesForFile g u') = {}"
    and ev: "\<forall>(u, v) \<in> set (graphUpdates g). viewConsistent v"
    by (auto simp: graphInv_def)
  have dj: "edge_ref e \<noteq> edge_ref e'"
    if "u \<noteq> u'" "e \<in> set (getEdgesForFile g u)" "e' \<in> set (getEdgesForFile g u')" for u u' e e'
  proof
    assume "edge_ref e = edge_ref e'"
    have a: "edge_ref e \<in> edge_ref ` set (getEdgesForFile g u)"
      using that(2) by (rule imageI)
    have "edge_ref e' \<in> edge_ref ` set (getEdgesForFile g u')"
      using that(3) by (rule imageI)
    with \<open>edge_ref e = edge_ref e'\<close> a
    have "edge_ref e \<in> edge_ref ` set (getEdgesForFile g u)
        \<inter> edge_ref ` set (getEdgesForFile g u')" by simp
    with dj0 that(1) show False by blast
  qed
  from vc have co: "\<And>k e. e \<in> set (getCallees g k)
                      \<longleftrightarrow> edge_from e = k \<and> (\<exists>u. e \<in> set (getEdgesForFile g u))"
    and ci: "\<And>k e. e \<in> set (getCallers g k)
                      \<longleftrightarrow> edge_to e = k \<and> (\<exists>u. e \<in> set (getEdgesForFile g u))"
    and dc: "\<And>k. distinct (getCallees g k)" "\<And>k. distinct (getCallers g k)"
    by (simp_all add: viewConsistent_def)
  let ?old = "getEdgesForFile g uri"
  have keep: "(\<exists>u. e \<in> set (getEdgesForFile g u)) \<and> (\<forall>d \<in> set ?old. Q d \<longrightarrow> edge_ref e \<noteq> edge_ref d)
              \<longleftrightarrow> (\<exists>u. u \<noteq> uri \<and> e \<in> set (getEdgesForFile g u))"
    if q: "\<And>d. edge_ref d = edge_ref e \<Longrightarrow> d \<in> set ?old \<Longrightarrow> Q d" for e Q
  proof
    assume a: "(\<exists>u. e \<in> set (getEdgesForFile g u)) \<and> (\<forall>d \<in> set ?old. Q d \<longrightarrow> edge_ref e \<noteq> edge_ref d)"
    then obtain u where u: "e \<in> set (getEdgesForFile g u)" by blast
    have "u \<noteq> uri"
    proof
      assume "u = uri"
      with u have "e \<in> set ?old" by simp
      with a q[of e] show False by blast
    qed
    with u show "\<exists>u. u \<noteq> uri \<and> e \<in> set (getEdgesForFile g u)" by blast
  next
    assume "\<exists>u. u \<noteq> uri \<and> e \<in> set (getEdgesForFile g u)"
    then obtain u where u: "u \<noteq> uri" "e \<in> set (getEdgesForFile g u)" by blast
    with dj[of u uri e] show "(\<exists>u. e \<in> set (getEdgesForFile g u))
        \<and> (\<forall>d \<in> set ?old. Q d \<longrightarrow> edge_ref e \<noteq> edge_ref d)" by blast
  qed
  have same: "d = e" if "edge_ref d = edge_ref e" "d \<in> set ?old" "e \<in> set (getEdgesForFile g u)" for d e u
  proof (cases "u = uri")
    case True
    with that dr[of uri] show ?thesis by (metis distinct_map inj_onD)
  next
    case False
    with that dj[of u uri e d] show ?thesis by simp
  qed
  have files': "(\<exists>u. e \<in> set (getEdgesForFile g' u))
                 \<longleftrightarrow> e \<in> set new \<or> (\<exists>u. u \<noteq> uri \<and> e \<in> set (getEdgesForFile g u))" for e
    unfolding files by (auto split: if_splits)
  have co': "e \<in> set (getCallees g' k)
               \<longleftrightarrow> edge_from e = k \<and> (\<exists>u. e \<in> set (getEdgesForFile g' u))" for k e
  proof (cases "edge_from e = k")
    case False
    then show ?thesis unfolding out using co[of e k] by auto
  next
    case True
    have q: "edge_from d = k" if "edge_ref d = edge_ref e" "d \<in> set ?old"
       "\<exists>u. e \<in> set (getEdgesForFile g u)" for d
      using that same[of d e] True by blast
    have "e \<in> set (getCallees g' k)
            \<longleftrightarrow> ((\<exists>u. e \<in> set (getEdgesForFile g u))
                 \<and> (\<forall>d \<in> set ?old. edge_from d = k \<longrightarrow> edge_ref e \<noteq> edge_ref d))
                \<or> e \<in> set new"
      unfolding out using co[of e k] True by auto
    also have "((\<exists>u. e \<in> set (getEdgesForFile g u))
                 \<and> (\<forall>d \<in> set ?old. edge_from d = k \<longrightarrow> edge_ref e \<noteq> edge_ref d))
               \<longleftrightarrow> (\<exists>u. u \<noteq> uri \<and> e \<in> set (getEdgesForFile g u))"
    proof (cases "\<exists>u. e \<in> set (getEdgesForFile g u)")
      case True
      show ?thesis by (rule keep) (use q True in blast)
    next
      case False
      then show ?thesis by blast
    qed
    finally show ?thesis using True files'[of e] by blast
  qed
  have ci': "e \<in> set (getCallers g' k)
               \<longleftrightarrow> edge_to e = k \<and> (\<exists>u. e \<in> set (getEdgesForFile g' u))" for k e
  proof (cases "edge_to e = k")
    case False
    then show ?thesis unfolding inc using ci[of e k] by auto
  next
    case True
    have q: "edge_to d = k" if "edge_ref d = edge_ref e" "d \<in> set ?old"
       "\<exists>u. e \<in> set (getEdgesForFile g u)" for d
      using that same[of d e] True by blast
    have "e \<in> set (getCallers g' k)
            \<longleftrightarrow> ((\<exists>u. e \<in> set (getEdgesForFile g u))
                 \<and> (\<forall>d \<in> set ?old. edge_to d = k \<longrightarrow> edge_ref e \<noteq> edge_ref d))
                \<or> e \<in> set new"
      unfolding inc using ci[of e k] True by auto
    also have "((\<exists>u. e \<in> set (getEdgesForFile g u))
                 \<and> (\<forall>d \<in> set ?old. edge_to d = k \<longrightarrow> edge_ref e \<noteq> edge_ref d))
               \<longleftrightarrow> (\<exists>u. u \<noteq> uri \<and> e \<in> set (getEdgesForFile g u))"
    proof (cases "\<exists>u. e \<in> set (getEdgesForFile g u)")
      case True
      show ?thesis by (rule keep) (use q True in blast)
    next
      case False
      then show ?thesis by blast
    qed
    finally show ?thesis using True files'[of e] by blast
  qed
  have dnew': "distinct new" using dnew by (simp add: distinct_map)
  have apart: "x \<noteq> y" if "\<exists>u. x \<in> set (getEdgesForFile g u)" "y \<in> set new" for x y
    using that lt fresh by fastforce
  have dco: "distinct (getCallees g' k)" for k
  proof -
    have "False" if "x \<in> set (getCallees g k)" "x \<in> set new" for x
      using that co[of x k] apart[of x x] by blast
    with dc(1)[of k] dnew' show ?thesis unfolding out by (intro distinct_kept_new)
  qed
  have dci: "distinct (getCallers g' k)" for k
  proof -
    have "False" if "x \<in> set (getCallers g k)" "x \<in> set new" for x
      using that ci[of x k] apart[of x x] by blast
    with dc(2)[of k] dnew' show ?thesis unfolding inc by (intro distinct_kept_new)
  qed
  have vc': "viewConsistent g'"
    unfolding viewConsistent_def by (intro conjI allI co' ci' dco dci)
  have lt': "\<forall>u. \<forall>e \<in> set (getEdgesForFile g' u). edge_ref e < nextEdgeRef g'"
  proof (intro allI ballI)
    fix u e
    assume e: "e \<in> set (getEdgesForFile g' u)"
    show "edge_ref e < nextEdgeRef g'"
    proof (cases "u = uri")
      case True
      with e files[of u] fresh show ?thesis by simp
    next
      case False
      with e files[of u] have "e \<in> set (getEdgesForFile g u)" by simp
      from lt[OF this] le show ?thesis by simp
    qed
  qed
  have dr': "\<forall>u. distinct (map edge_ref (getEdgesForFile g' u))"
    unfolding files using dnew dr by simp
  have dj': "\<forall>u u'. u \<noteq> u' \<longrightarrow>
           edge_ref ` set (getEdgesForFile g' u) \<inter> edge_ref ` set (getEdgesForFile g' u') = {}"
  proof (intro allI impI)
    fix u u' :: string
    assume ne: "u \<noteq> u'"
    have old_new: "edge_ref x \<noteq> edge_ref y"
      if "x \<in> set (getEdgesForFile g w)" "y \<in> set new" for x y w
      using that lt[of x w] fresh by fastforce
    show "edge_ref ` set (getEdgesForFile g' u) \<inter> edge_ref ` set (getEdgesForFile g' u') = {}"
    proof (cases "u = uri")
      case True
      with ne have f: "getEdgesForFile g' u = new" "getEdgesForFile g' u' = getEdgesForFile g u'"
        using files[of u] files[of u'] by simp_all
      show ?thesis unfolding f using old_new[of _ u'] by (fastforce simp: disjoint_iff)
    next
      case False
      show ?thesis
      proof (cases "u' = uri")
        case True
        with False have f: "getEdgesForFile g' u = getEdgesForFile g u" "getEdgesForFile g' u' = new"
          using files[of u] files[of u'] by simp_all
        show ?thesis unfolding f using old_new[of _ u] by (fastforce simp: disjoint_iff)
      next
        case False
        with \<open>u \<noteq> uri\<close> have f: "getEdgesForFile g' u = getEdgesForFile g u"
            "getEdgesForFile g' u' = getEdgesForFile g u'"
          using files[of u] files[of u'] by simp_all
        show ?thesis unfolding f using dj0 ne by blast
      qed
    qed
  qed
  have ev': "\<forall>(u, v) \<in> set (graphUpdates g'). viewConsistent v"
    unfolding upd using ev vc' by (auto simp: viewConsistent_truncate)
  from vc' lt' dr' dj' ev' show ?thesis unfolding graphInv_def by blast
qed


lemma old_edges: 
  "(case fileGraphs g uri of Some oldFileGraph \<Rightarrow> removeEdges (fg_edges oldFileGraph) g | None \<Rightarrow> g)
     = removeEdges (getEdgesForFile g uri) g"
  by (simp add: getEdgesForFile_def split: option.splits)

lemma rebuildForUri_cases:
  assumes "rebuildForUri ss models uri g = Inr g'"
  obtains (skipped) "g' = g"
  | (large) "g' = g\<lparr>graphLog := graphLog g
                  @ [Debug ''[CodeGraphService] Skipping graph rebuild for large file'' uri]\<rparr>"
  | (completed) snap m new nxt where "getSnapshot ss uri = Some snap" "models uri = Some m"
      "computeIntraFileCallEdges snap m (nextEdgeRef g) = Inr (new, nxt)"
      "g' = completedRebuild uri snap new nxt g"
proof (cases "getSnapshot ss uri")
  case None
  with assms have "g' = g" by (simp add: rebuildForUri_def)
  then show ?thesis by (rule skipped)
next
  case (Some snap)
  note snap = Some
  show ?thesis
  proof (cases "models uri")
    case None
    with assms snap have "g' = g" by (simp add: rebuildForUri_def)
    then show ?thesis by (rule skipped)
  next
    case (Some m)
    note m = Some
    show ?thesis
    proof (cases "model_disposed m")
      case True
      with assms snap m show ?thesis by (simp add: rebuildForUri_def getValueLength_def)
    next
      case False
      then have len: "getValueLength m = Inr (int (length (model_value m)))"
        by (simp add: getValueLength_def)
      show ?thesis
      proof (cases "int (length (model_value m)) > MAX_FILE_LENGTH_FOR_SCAN")
        case True
        with assms snap m len
        have "g' = g\<lparr>graphLog := graphLog g
                  @ [Debug ''[CodeGraphService] Skipping graph rebuild for large file'' uri]\<rparr>"
          by (simp add: rebuildForUri_def)
        then show ?thesis by (rule large)
      next
        case small: False
        let ?g1 = "removeEdges (getEdgesForFile g uri) g"
        have n1: "nextEdgeRef ?g1 = nextEdgeRef g" by (simp add: removeEdges_frame)
        show ?thesis
        proof (cases "computeIntraFileCallEdges snap m (nextEdgeRef g)")
          case (Inl e)
          with computeIntraFileCallEdges_Inl False show ?thesis by blast
        next
          case (Inr r)
          obtain new nxt where r: "r = (new, nxt)" by (cases r)
          from assms snap m len small Inr r
          have "g' = completedRebuild uri snap new nxt g"
            by (simp add: rebuildForUri_def old_edges n1 completedRebuild_def Let_def)
          with snap m Inr r show ?thesis by (intro completed) simp_all
        qed
      qed
    qed
  qed
qed

lemma completedRebuild_readers:
  "getEdgesForFile (completedRebuild uri snap new nxt g) u
     = (if u = uri then new else getEdgesForFile g u)"
  "getCallees (completedRebuild uri snap new nxt g) k
     = filter (\<lambda>x. \<forall>e \<in> set (getEdgesForFile g uri). edge_from e = k \<longrightarrow> edge_ref x \<noteq> edge_ref e)
         (getCallees g k) @ filter (\<lambda>e. edge_from e = k) new"
  "getCallers (completedRebuild uri snap new nxt g) k
     = filter (\<lambda>x. \<forall>e \<in> set (getEdgesForFile g uri). edge_to e = k \<longrightarrow> edge_ref x \<noteq> edge_ref e)
         (getCallers g k) @ filter (\<lambda>e. edge_to e = k) new"
  "nextEdgeRef (completedRebuild uri snap new nxt g) = nxt"
  "graphUpdates (completedRebuild uri snap new nxt g)
     = graphUpdates g @ [(uri, graph_view.truncate (completedRebuild uri snap new nxt g))]"
  by (simp_all add: completedRebuild_def Let_def fireGraphUpdated_def getEdgesForFile_def
        getCallees_lookup getCallers_lookup addEdges_frame removeEdges_frame
        addEdges_outgoing addEdges_incoming removeEdges_outgoing removeEdges_incoming
        graph_view.truncate_def)

lemma graphInv_rebuild:
  assumes "graphInv g" and "rebuildForUri ss models uri g = Inr g'"
  shows "graphInv g'"
  using assms(2)
proof (cases rule: rebuildForUri_cases)
  case skipped
  with assms(1) show ?thesis by simp
next
  case large
  with assms(1) show ?thesis by (simp add: graphInv_log)
next
  case (completed snap m new nxt)
  note refs = computeIntraFileCallEdges_refs[OF completed(3)]
  show ?thesis
    unfolding completed(4)
    by (rule graphInv_step[OF assms(1), where new = new and uri = uri])
       (use refs in \<open>simp_all add: completedRebuild_readers\<close>)
qed

lemma reachableGraph_inv: "reachableGraph g \<Longrightarrow> graphInv g"
  by (induction rule: reachableGraph.induct) (auto intro: graphInv_init graphInv_rebuild)


text \<open>
  C2. In every state the call-graph builder reaches, the three readers agree:
  \<open>getCallees\<close> and \<open>getCallers\<close> return exactly the edges of the edge sets last stored for
  the files, each once. The same holds of the data a listener reads at every
  graph-updated event. A pass of \<open>rebuildForUri\<close> either changes none of this data and
  fires nothing, or it is a completed pass: the old edge set of the file is removed
  from both indexes, the new edge set is stored and inserted, and then the one event is
  fired, on the final data; no edge of the file's previous edge set is returned by any
  reader afterwards, and the edge sets of the other files are unchanged.
\<close>

theorem edge_indexes_hold_latest_pass:
  assumes "reachableGraph g"
  shows "viewConsistent g
    \<and> (\<forall>(u, v) \<in> set (graphUpdates g). viewConsistent v)
    \<and> (\<forall>ss models uri g'. rebuildForUri ss models uri g = Inr g' \<longrightarrow>
          (graph_view.truncate g' = graph_view.truncate g \<and> graphUpdates g' = graphUpdates g)
        \<or> ((\<exists>snap new nxt. g' = completedRebuild uri snap new nxt g)
            \<and> graphUpdates g' = graphUpdates g @ [(uri, graph_view.truncate g')]
            \<and> viewConsistent g'
            \<and> (\<forall>e \<in> set (getEdgesForFile g uri).
                  e \<notin> set (getEdgesForFile g' uri)
                  \<and> (\<forall>k. e \<notin> set (getCallees g' k) \<and> e \<notin> set (getCallers g' k)))
            \<and> (\<forall>u. u \<noteq> uri \<longrightarrow> getEdgesForFile g' u = getEdgesForFile g u)))"
proof -
  have inv: "graphInv g" using assms by (rule reachableGraph_inv)
  have step: "(graph_view.truncate g' = graph_view.truncate g \<and> graphUpdates g' = graphUpdates g)
        \<or> ((\<exists>snap new nxt. g' = completedRebuild uri snap new nxt g)
            \<and> graphUpdates g' = graphUpdates g @ [(uri, graph_view.truncate g')]
            \<and> viewConsistent g'
            \<and> (\<forall>e \<in> set (getEdgesForFile g uri).
                  e \<notin> set (getEdgesForFile g' uri)
                  \<and> (\<forall>k. e \<notin> set (getCallees g' k) \<and> e \<notin> set (getCallers g' k)))
            \<and> (\<forall>u. u \<noteq> uri \<longrightarrow> getEdgesForFile g' u = getEdgesForFile g u))"
    if r: "rebuildForUri ss models uri g = Inr g'" for ss models uri g'
    using r
  proof (cases rule: rebuildForUri_cases)
    case skipped
    then show ?thesis by simp
  next
    case large
    then show ?thesis by (simp add: graph_view.truncate_def)
  next
    case (completed snap m new nxt)
    have inv': "graphInv g'" using inv r by (rule graphInv_rebuild)
    then have vc': "viewConsistent g'" by (simp add: graphInv_def)
    note refs = computeIntraFileCallEdges_refs[OF completed(3)]
    have files: "getEdgesForFile g' u = (if u = uri then new else getEdgesForFile g u)" for u
      unfolding completed(4) by (rule completedRebuild_readers)
    have upd: "graphUpdates g' = graphUpdates g @ [(uri, graph_view.truncate g')]"
      unfolding completed(4) by (rule completedRebuild_readers)
    from inv have lt: "\<And>u e. e \<in> set (getEdgesForFile g u) \<Longrightarrow> edge_ref e < nextEdgeRef g"
      and dj0: "\<forall>u u'. u \<noteq> u' \<longrightarrow>
           edge_ref ` set (getEdgesForFile g u) \<inter> edge_ref ` set (getEdgesForFile g u') = {}"
      by (auto simp: graphInv_def)
    have gone: "e \<notin> set (getEdgesForFile g' u)" if e: "e \<in> set (getEdgesForFile g uri)" for e u
    proof (cases "u = uri")
      case True
      from lt[OF e] refs(2) have "e \<notin> set new" by fastforce
      with True files[of u] show ?thesis by simp
    next
      case False
      have "e \<notin> set (getEdgesForFile g u)"
      proof
        assume "e \<in> set (getEdgesForFile g u)"
        with e have "edge_ref e \<in> edge_ref ` set (getEdgesForFile g u)
                       \<inter> edge_ref ` set (getEdgesForFile g uri)" by simp
        with dj0 False show False by blast
      qed
      with False files[of u] show ?thesis by simp
    qed
    from vc' have co: "\<forall>k e. e \<in> set (getCallees g' k)
              \<longleftrightarrow> edge_from e = k \<and> (\<exists>u. e \<in> set (getEdgesForFile g' u))"
      unfolding viewConsistent_def by (rule conjunct1)
    from vc' have ci: "\<forall>k e. e \<in> set (getCallers g' k)
              \<longleftrightarrow> edge_to e = k \<and> (\<exists>u. e \<in> set (getEdgesForFile g' u))"
      unfolding viewConsistent_def by (elim conjE)
    have old: "\<forall>e \<in> set (getEdgesForFile g uri).
                  e \<notin> set (getEdgesForFile g' uri)
                  \<and> (\<forall>k. e \<notin> set (getCallees g' k) \<and> e \<notin> set (getCallers g' k))"
    proof (intro ballI conjI allI)
      fix e k
      assume e: "e \<in> set (getEdgesForFile g uri)"
      show "e \<notin> set (getEdgesForFile g' uri)" by (rule gone[OF e])
      show "e \<notin> set (getCallees g' k)" using co gone[OF e] by blast
      show "e \<notin> set (getCallers g' k)" using ci gone[OF e] by blast
    qed
    have others: "\<forall>u. u \<noteq> uri \<longrightarrow> getEdgesForFile g' u = getEdgesForFile g u"
      using files by simp
    show ?thesis
    proof (rule disjI2, intro conjI)
      show "\<exists>snap new nxt. g' = completedRebuild uri snap new nxt g"
        using completed(4) by blast
      show "graphUpdates g' = graphUpdates g @ [(uri, graph_view.truncate g')]" by (rule upd)
      show "viewConsistent g'" by (rule vc')
      show "\<forall>e \<in> set (getEdgesForFile g uri).
                  e \<notin> set (getEdgesForFile g' uri)
                  \<and> (\<forall>k. e \<notin> set (getCallees g' k) \<and> e \<notin> set (getCallers g' k))"
        by (rule old)
      show "\<forall>u. u \<noteq> uri \<longrightarrow> getEdgesForFile g' u = getEdgesForFile g u" by (rule others)
    qed
  qed
  from inv have v: "viewConsistent g" and ev: "\<forall>(u, v) \<in> set (graphUpdates g). viewConsistent v"
    by (simp_all add: graphInv_def)
  show ?thesis
  proof (intro conjI allI impI)
    show "viewConsistent g" by (rule v)
    show "\<forall>(u, v) \<in> set (graphUpdates g). viewConsistent v" by (rule ev)
  next
    fix ss models uri g'
    assume r: "rebuildForUri ss models uri g = Inr g'"
    show "(graph_view.truncate g' = graph_view.truncate g \<and> graphUpdates g' = graphUpdates g)
        \<or> ((\<exists>snap new nxt. g' = completedRebuild uri snap new nxt g)
            \<and> graphUpdates g' = graphUpdates g @ [(uri, graph_view.truncate g')]
            \<and> viewConsistent g'
            \<and> (\<forall>e \<in> set (getEdgesForFile g uri).
                  e \<notin> set (getEdgesForFile g' uri)
                  \<and> (\<forall>k. e \<notin> set (getCallees g' k) \<and> e \<notin> set (getCallers g' k)))
            \<and> (\<forall>u. u \<noteq> uri \<longrightarrow> getEdgesForFile g' u = getEdgesForFile g u))"
      by (rule step[OF r])
  qed
qed

lemma rebuildForUri_total:
  assumes "models uri = Some m" and "\<not> model_disposed m"
  shows "\<exists>g'. rebuildForUri ss models uri g = Inr g'"
proof (cases "getSnapshot ss uri")
  case None
  then show ?thesis by (simp add: rebuildForUri_def)
next
  case (Some snap)
  from assms(2) have len: "getValueLength m = Inr (int (length (model_value m)))"
    by (simp add: getValueLength_def)
  show ?thesis
  proof (cases "int (length (model_value m)) > MAX_FILE_LENGTH_FOR_SCAN")
    case True
    with Some assms(1) len show ?thesis by (simp add: rebuildForUri_def)
  next
    case False
    with Some assms(1) len show ?thesis
      by (simp add: rebuildForUri_def Let_def split: sum.splits prod.splits)
  qed
qed

lemma rebuiltOnce_step:
  "rebuildForUri (recomputeSnapshot 0 twoFunctions structure_init)
     [''file:///t.ts'' \<mapsto> twoFunctions] ''file:///t.ts'' graph_init = Inr rebuiltOnce"
proof -
  have "\<not> model_disposed twoFunctions" by (simp add: twoFunctions_def liveModel_def)
  from rebuildForUri_total[OF _ this, of "[''file:///t.ts'' \<mapsto> twoFunctions]" "''file:///t.ts''"
      "recomputeSnapshot 0 twoFunctions structure_init" graph_init]
  obtain g' where "rebuildForUri (recomputeSnapshot 0 twoFunctions structure_init)
     [''file:///t.ts'' \<mapsto> twoFunctions] ''file:///t.ts'' graph_init = Inr g'" by auto
  then show ?thesis by (simp add: rebuiltOnce_def)
qed

lemma rebuiltTwice_step:
  "rebuildForUri (recomputeSnapshot 1 renamedFunction structure_init)
     [''file:///t.ts'' \<mapsto> renamedFunction] ''file:///t.ts'' rebuiltOnce = Inr rebuiltTwice"
proof -
  have "\<not> model_disposed renamedFunction" by (simp add: renamedFunction_def liveModel_def)
  from rebuildForUri_total[OF _ this, of "[''file:///t.ts'' \<mapsto> renamedFunction]" "''file:///t.ts''"
      "recomputeSnapshot 1 renamedFunction structure_init" rebuiltOnce]
  obtain g' where "rebuildForUri (recomputeSnapshot 1 renamedFunction structure_init)
     [''file:///t.ts'' \<mapsto> renamedFunction] ''file:///t.ts'' rebuiltOnce = Inr g'" by auto
  then show ?thesis by (simp add: rebuiltTwice_def)
qed

lemma rebuiltTwice_values:
  "map edge_ref (getEdgesForFile rebuiltOnce ''file:///t.ts'') = [0, 1, 2]
   \<and> map edge_ref (getEdgesForFile rebuiltTwice ''file:///t.ts'') = [3, 4]
   \<and> map edge_ref (getCallees rebuiltTwice ''file:///t.ts::a@1'') = [3]
   \<and> getCallers rebuiltTwice ''file:///t.ts::b@2'' = []"
  by code_simp

lemma rebuiltTwice_fired:
  "length (graphUpdates rebuiltTwice) \<noteq> length (graphUpdates rebuiltOnce)"
  by code_simp

text \<open>Two passes for the same file: the second replaces the edge objects 0, 1, 2 of the
  first by the new objects 3, 4, and the callers of the renamed function are gone.\<close>

theorem edge_indexes_hold_latest_pass_witness:
  "reachableGraph rebuiltOnce
   \<and> rebuildForUri (recomputeSnapshot 1 renamedFunction structure_init)
        [''file:///t.ts'' \<mapsto> renamedFunction] ''file:///t.ts'' rebuiltOnce = Inr rebuiltTwice
   \<and> graphUpdates rebuiltTwice \<noteq> graphUpdates rebuiltOnce
   \<and> (graphUpdates rebuiltTwice
         = graphUpdates rebuiltOnce @ [(''file:///t.ts'', graph_view.truncate rebuiltTwice)]
       \<and> viewConsistent rebuiltTwice)
   \<and> (map edge_ref (getEdgesForFile rebuiltOnce ''file:///t.ts'') = [0, 1, 2]
       \<and> map edge_ref (getEdgesForFile rebuiltTwice ''file:///t.ts'') = [3, 4]
       \<and> map edge_ref (getCallees rebuiltTwice ''file:///t.ts::a@1'') = [3]
       \<and> getCallers rebuiltTwice ''file:///t.ts::b@2'' = [])"
proof -
  have r1: "reachableGraph rebuiltOnce"
    by (rule reachableGraph.rebuild[OF reachableGraph.init rebuiltOnce_step])
  have ne: "graphUpdates rebuiltTwice \<noteq> graphUpdates rebuiltOnce"
    using rebuiltTwice_fired by auto
  note s = edge_indexes_hold_latest_pass [OF r1, THEN conjunct2, THEN conjunct2, rule_format, OF rebuiltTwice_step]
  from s have c: "graphUpdates rebuiltTwice
              = graphUpdates rebuiltOnce @ [(''file:///t.ts'', graph_view.truncate rebuiltTwice)]
            \<and> viewConsistent rebuiltTwice"
  proof (elim disjE conjE)
    assume "graphUpdates rebuiltTwice = graphUpdates rebuiltOnce"
    with ne show ?thesis by simp
  next
    assume "graphUpdates rebuiltTwice
              = graphUpdates rebuiltOnce @ [(''file:///t.ts'', graph_view.truncate rebuiltTwice)]"
      and "viewConsistent rebuiltTwice"
    then show ?thesis by (rule conjI)
  qed
  show ?thesis
    by (intro conjI r1 rebuiltTwice_step ne c rebuiltTwice_values)
qed


end
